theory Spec2Isabelle
  imports Main "HOL-Library.Char_ord" "HOL-Library.List_Lexorder" "HOL-Library.Product_Lexorder"
begin

section \<open>Python strings\<close>

text \<open>
  A Python \<open>str\<close> is a sequence of code points. It is modelled as a \<open>string\<close> whose
  characters are the code points below 256; \<open>ord\<close> reads the code point. The classes
  below are the ones Python's \<open>str.isspace\<close> and the \<open>re\<close> module (\<open>\s\<close>, \<open>\w\<close> on
  \<open>str\<close> patterns, no \<open>re.ASCII\<close>) use, restricted to that range. Strings are ordered
  lexicographically by code point, as Python's \<open>sorted\<close> orders them.
\<close>

definition ord :: "char \<Rightarrow> nat" where
  "ord c = of_char c"

definition in_range :: "nat \<Rightarrow> nat \<Rightarrow> char \<Rightarrow> bool" where
  "in_range lo hi c = (lo \<le> ord c \<and> ord c \<le> hi)"

definition isspace :: "char \<Rightarrow> bool" where
  "isspace c = (in_range 9 13 c \<or> in_range 28 32 c \<or> ord c = 133 \<or> ord c = 160)"

definition isword :: "char \<Rightarrow> bool" where
  "isword c = (in_range 48 57 c \<or> in_range 65 90 c \<or> c = CHR ''_'' \<or> in_range 97 122 c
     \<or> ord c \<in> {170, 178, 179, 181, 185, 186} \<or> in_range 188 190 c
     \<or> in_range 192 214 c \<or> in_range 216 246 c \<or> in_range 248 255 c)"

abbreviation nl :: char where
  "nl \<equiv> CHR 0x0A"

fun startswith :: "string \<Rightarrow> string \<Rightarrow> bool" where
  "startswith s [] = True"
| "startswith [] (c # l) = False"
| "startswith (d # s) (c # l) = (d = c \<and> startswith s l)"

definition endswith :: "string \<Rightarrow> string \<Rightarrow> bool" where
  "endswith s l = startswith (rev s) (rev l)"

text \<open>\<open>contains s t\<close> is Python's \<open>t in s\<close>.\<close>

fun contains :: "string \<Rightarrow> string \<Rightarrow> bool" where
  "contains [] t = (t = [])"
| "contains (c # s) t = (startswith (c # s) t \<or> contains s t)"



definition rstrip :: "string \<Rightarrow> string" where
  "rstrip s = rev (dropWhile isspace (rev s))"




text \<open>
  \<open>partition_first s sep\<close> cuts \<open>s\<close> at the leftmost occurrence of a non-empty \<open>sep\<close>;
  \<open>split s sep\<close> is \<open>s.split(sep)\<close> and \<open>split1 s sep\<close> is the first element of
  \<open>s.split(sep, 1)\<close>.
\<close>

fun partition_first :: "string \<Rightarrow> string \<Rightarrow> (string \<times> string) option" where
  "partition_first [] sep = None"
| "partition_first (c # s) sep =
     (if sep \<noteq> [] \<and> startswith (c # s) sep then Some ([], drop (length sep) (c # s))
      else map_option (\<lambda>(a, b). (c # a, b)) (partition_first s sep))"

lemma partition_first_shorter:
  "partition_first s sep = Some (a, b) \<Longrightarrow> length b < length s"
  by (induction s arbitrary: a) (auto split: if_splits simp: neq_Nil_conv)

function split :: "string \<Rightarrow> string \<Rightarrow> string list" where
  "split s sep =
     (case partition_first s sep of None \<Rightarrow> [s] | Some (a, b) \<Rightarrow> a # split b sep)"
  by pat_completeness auto
termination
  by (relation "measure (\<lambda>(s, sep). length s)") (auto dest: partition_first_shorter)


text \<open>\<open>str_nat n\<close> is \<open>str(n)\<close> for a non-negative integer.\<close>

definition digit :: "nat \<Rightarrow> char" where
  "digit d = char_of (48 + d)"

fun str_nat :: "nat \<Rightarrow> string" where
  "str_nat n = (if n < 10 then [digit n] else str_nat (n div 10) @ [digit (n mod 10)])"

declare str_nat.simps [simp del]


section \<open>The fragment of Python's \<open>re\<close> the scripts use\<close>

text \<open>
  Patterns are syntax trees; matching is the backtracking search of \<open>re\<close>: \<open>rmatch r st\<close>
  lists every way \<open>r\<close> can match at \<open>st\<close>, in the order the engine tries them, so that the
  match \<open>re\<close> reports is the head of the list. A state holds the character before the
  current position (for \<open>^\<close> and \<open>\b\<close>), the text from the current position on, and the
  groups captured so far. \<open>Bol\<close> and \<open>Eol\<close> are \<open>^\<close> and \<open>$\<close> under \<open>re.MULTILINE\<close>;
  \<open>AnyCh\<close> is \<open>.\<close> under \<open>re.DOTALL\<close>; \<open>Star\<close> is a greedy and \<open>Lazy\<close> a non-greedy \<open>*\<close>
  on a character class.
\<close>

datatype citem = Ch char | Rng char char | WS | AnyCh

fun item_mem :: "citem \<Rightarrow> char \<Rightarrow> bool" where
  "item_mem (Ch d) c = (c = d)"
| "item_mem (Rng lo hi) c = in_range (ord lo) (ord hi) c"
| "item_mem WS c = isspace c"
| "item_mem AnyCh c = True"

definition cmem :: "citem list \<Rightarrow> char \<Rightarrow> bool" where
  "cmem k c = list_ex (\<lambda>i. item_mem i c) k"

datatype re = Lit string | Set "citem list" | Star "citem list" | Lazy "citem list"
  | Bol | Eol | WordB | Seq re re | Alt re re | Grp nat re

type_synonym groups = "(nat \<times> string) list"

type_synonym mstate = "char option \<times> string \<times> groups"

definition wordp :: "char option \<Rightarrow> bool" where
  "wordp p = (case p of None \<Rightarrow> False | Some c \<Rightarrow> isword c)"

definition head :: "string \<Rightarrow> char option" where
  "head s = (case s of [] \<Rightarrow> None | c # _ \<Rightarrow> Some c)"

definition advance :: "string \<Rightarrow> char option \<Rightarrow> char option" where
  "advance l p = (if l = [] then p else Some (last l))"

fun rmatch :: "re \<Rightarrow> mstate \<Rightarrow> mstate list" where
  "rmatch (Lit l) (p, s, g) =
     (if startswith s l then [(advance l p, drop (length l) s, g)] else [])"
| "rmatch (Set k) (p, [], g) = []"
| "rmatch (Set k) (p, c # cs, g) = (if cmem k c then [(Some c, cs, g)] else [])"
| "rmatch (Star k) (p, [], g) = [(p, [], g)]"
| "rmatch (Star k) (p, c # cs, g) =
     (if cmem k c then rmatch (Star k) (Some c, cs, g) @ [(p, c # cs, g)]
      else [(p, c # cs, g)])"
| "rmatch (Lazy k) (p, [], g) = [(p, [], g)]"
| "rmatch (Lazy k) (p, c # cs, g) =
     (if cmem k c then (p, c # cs, g) # rmatch (Lazy k) (Some c, cs, g)
      else [(p, c # cs, g)])"
| "rmatch Bol (p, s, g) = (if p = None \<or> p = Some nl then [(p, s, g)] else [])"
| "rmatch Eol (p, s, g) = (if head s = None \<or> head s = Some nl then [(p, s, g)] else [])"
| "rmatch WordB (p, s, g) = (if wordp p \<noteq> wordp (head s) then [(p, s, g)] else [])"
| "rmatch (Seq a b) st = concat (map (rmatch b) (rmatch a st))"
| "rmatch (Alt a b) st = rmatch a st @ rmatch b st"
| "rmatch (Grp n a) (p, s, g) =
     map (\<lambda>(p', s', g'). (p', s', (n, take (length s - length s') s) # g'))
       (rmatch a (p, s, g))"

text \<open>\<open>seq\<close> chains the parts of a pattern; \<open>plus k\<close> is \<open>[k]+\<close>.\<close>

fun seq :: "re list \<Rightarrow> re" where
  "seq [] = Lit []"
| "seq [r] = r"
| "seq (r # q # rs) = Seq r (seq (q # rs))"

definition plus :: "citem list \<Rightarrow> re" where
  "plus k = Seq (Set k) (Star k)"

text \<open>
  A match object: the text before the match, the matched text, the text after it, the
  character before the end of the match, and the groups.
\<close>

record rematch =
  m_before :: string
  m_text :: string
  m_after :: string
  m_prev :: "char option"
  m_groups :: groups

definition group :: "rematch \<Rightarrow> nat \<Rightarrow> string" where
  "group m n = (case map_of (m_groups m) n of None \<Rightarrow> [] | Some t \<Rightarrow> t)"

text \<open>
  \<open>match_here r adv p s\<close> is the first match of \<open>r\<close> at the current position; with
  \<open>adv\<close> set, empty matches are rejected (the scanner of \<open>finditer\<close> sets it after an
  empty match). \<open>search_from\<close> scans the start positions from left to right.
\<close>

definition match_here :: "re \<Rightarrow> bool \<Rightarrow> char option \<Rightarrow> string \<Rightarrow> mstate option" where
  "match_here r adv p s =
     (case filter (\<lambda>(p', s', g'). \<not> (adv \<and> length s' = length s)) (rmatch r (p, s, [])) of
        [] \<Rightarrow> None | st # _ \<Rightarrow> Some st)"

definition mk_match :: "string \<Rightarrow> mstate \<Rightarrow> rematch" where
  "mk_match s st = (case st of (p', s', g') \<Rightarrow>
     \<lparr>m_before = [], m_text = take (length s - length s') s, m_after = s',
      m_prev = p', m_groups = g'\<rparr>)"

fun search_from :: "re \<Rightarrow> bool \<Rightarrow> char option \<Rightarrow> string \<Rightarrow> rematch option" where
  "search_from r adv p [] = map_option (mk_match []) (match_here r adv p [])"
| "search_from r adv p (c # cs) =
     (case match_here r adv p (c # cs) of
        Some st \<Rightarrow> Some (mk_match (c # cs) st)
      | None \<Rightarrow> map_option (\<lambda>m. m\<lparr>m_before := c # m_before m\<rparr>)
                  (search_from r False (Some c) cs))"

text \<open>\<open>re.search(r, s)\<close>.\<close>

definition search :: "re \<Rightarrow> string \<Rightarrow> rematch option" where
  "search r s = search_from r False None s"


lemma startswith_iff: "startswith s l \<longleftrightarrow> (\<exists>t. s = l @ t)"
  by (induction s l rule: startswith.induct) auto

lemma rmatch_suffix:
  "st' \<in> set (rmatch r st) \<Longrightarrow> \<exists>t. fst (snd st) = t @ fst (snd st')"
proof (induction r st arbitrary: st' rule: rmatch.induct)
  case (1 l p s g)
  then show ?case by (auto simp: startswith_iff split: if_splits)
next
  case (5 k p c cs g)
  then show ?case by (fastforce split: if_splits)
next
  case (7 k p c cs g)
  then show ?case by (fastforce split: if_splits)
next
  case (11 a b st)
  from 11(3) obtain y where y: "y \<in> set (rmatch a st)" "st' \<in> set (rmatch b y)" by auto
  from 11(1)[OF y(1)] obtain t1 where t1: "fst (snd st) = t1 @ fst (snd y)" by auto
  from 11(2)[OF y(1) y(2)] obtain t2 where t2: "fst (snd y) = t2 @ fst (snd st')" by auto
  from t1 t2 have "fst (snd st) = (t1 @ t2) @ fst (snd st')" by simp
  then show ?case by blast
next
  case (13 n a p s g)
  from 13(2) obtain y where y: "y \<in> set (rmatch a (p, s, g))"
    and st': "fst (snd st') = fst (snd y)" by (auto split: prod.splits)
  from 13(1)[OF y] st' show ?case by simp
qed (auto split: if_splits)

lemma match_here_Some:
  assumes "match_here r adv p s = Some (p', s', g')"
  shows "(p', s', g') \<in> set (rmatch r (p, s, [])) \<and> \<not> (adv \<and> length s' = length s)"
proof -
  define f where "f = filter (\<lambda>(p', s', g'). \<not> (adv \<and> length s' = length s)) (rmatch r (p, s, []))"
  from assms have "(case f of [] \<Rightarrow> None | st # _ \<Rightarrow> Some st) = Some (p', s', g')"
    unfolding match_here_def f_def .
  then obtain rest where "f = (p', s', g') # rest"
    by (cases f) simp_all
  then have "(p', s', g') \<in> set f"
    by simp
  then show ?thesis unfolding f_def by simp
qed

lemma match_here_length:
  assumes "match_here r adv p s = Some (p', s', g')"
  shows "length s' \<le> length s" and "adv \<Longrightarrow> length s' < length s"
proof -
  from match_here_Some[OF assms]
  have m: "(p', s', g') \<in> set (rmatch r (p, s, []))"
    and a: "\<not> (adv \<and> length s' = length s)" by simp_all
  from rmatch_suffix[OF m] obtain t where t: "s = t @ s'" by auto
  from t show "length s' \<le> length s" by simp
  from t a show "adv \<Longrightarrow> length s' < length s" by (cases t) simp_all
qed

lemma search_from_after:
  "search_from r adv p s = Some m \<Longrightarrow>
   length (m_after m) \<le> length s \<and> (adv \<or> m_text m \<noteq> [] \<longrightarrow> length (m_after m) < length s)"
proof (induction s arbitrary: adv p m)
  case Nil
  then obtain st where st: "match_here r adv p [] = Some st" and m: "m = mk_match [] st"
    by auto
  obtain p' s' g' where st': "st = (p', s', g')" by (cases st)
  from match_here_length(1)[of r adv p "[]" p' s' g'] st st' have "s' = []" by simp
  with m st' match_here_length(2)[of r adv p "[]" p' s' g'] st show ?case
    by (auto simp: mk_match_def)
next
  case (Cons c cs)
  show ?case
  proof (cases "match_here r adv p (c # cs)")
    case (Some st)
    obtain p' s' g' where st': "st = (p', s', g')" by (cases st)
    from Some Cons.prems have m: "m = mk_match (c # cs) st" by simp
    from match_here_length[of r adv p "c # cs" p' s' g'] Some st'
    have le: "length s' \<le> length (c # cs)" and lt: "adv \<Longrightarrow> length s' < length (c # cs)"
      by simp_all
    from m st' have a: "m_after m = s'" and t: "m_text m = take (length (c # cs) - length s') (c # cs)"
      by (simp_all add: mk_match_def)
    from t le have "m_text m \<noteq> [] \<Longrightarrow> length s' < length (c # cs)"
      by (cases "length s' = length (c # cs)") simp_all
    with a le lt show ?thesis by auto
  next
    case None
    with Cons.prems obtain m' where m': "search_from r False (Some c) cs = Some m'"
      and m: "m = m'\<lparr>m_before := c # m_before m'\<rparr>" by auto
    from Cons.IH[OF m'] m show ?thesis by auto
  qed
qed

text \<open>
  \<open>finditer r s\<close> lists the matches of \<open>re.finditer(r, s)\<close>: each search resumes where the
  previous match ended; after an empty match the next one may not be empty at the same
  position. In the matches after the first, \<open>m_before\<close> is the text skipped since the
  previous match.
\<close>

function finditer_from :: "re \<Rightarrow> bool \<Rightarrow> char option \<Rightarrow> string \<Rightarrow> rematch list" where
  "finditer_from r adv p s =
     (case search_from r adv p s of None \<Rightarrow> []
      | Some m \<Rightarrow> m # finditer_from r (m_text m = []) (m_prev m) (m_after m))"
  by pat_completeness auto
termination
proof (relation "measure (\<lambda>(r, adv, p, s). 2 * length s + (if adv then 0 else 1))")
  show "wf (measure (\<lambda>(r, adv, p, s). 2 * length s + (if adv then 0 else 1)))" by simp
next
  fix r :: re and adv :: bool and p :: "char option" and s :: string and m :: rematch
  assume "search_from r adv p s = Some m"
  from search_from_after[OF this]
  show "((r, m_text m = [], m_prev m, m_after m), r, adv, p, s)
          \<in> measure (\<lambda>(r, adv, p, s). 2 * length s + (if adv then 0 else 1))"
    by (cases adv; cases "m_text m = []") auto
qed

declare finditer_from.simps [simp del]

definition finditer :: "re \<Rightarrow> string \<Rightarrow> rematch list" where
  "finditer r s = finditer_from r False None s"


text \<open>
  \<open>subn1 r repl s\<close> is \<open>r.subn(lambda m: repl, s, count=1)\<close>: the leftmost match, if
  there is one, is replaced, and the number of replacements made is returned with the text.
\<close>

definition subn1 :: "re \<Rightarrow> string \<Rightarrow> string \<Rightarrow> string \<times> nat" where
  "subn1 r repl s =
     (case search r s of None \<Rightarrow> (s, 0)
      | Some m \<Rightarrow> (m_before m @ repl @ m_after m, 1))"


section \<open>\<open>scripts/refresh_hex_arch_inventories.py\<close>\<close>

text \<open>
  The workspace is a list of its regular files, each with its path relative to the
  workspace root (what \<open>rel\<close> returns) and its text, in the order \<open>rglob\<close> yields them.
  \<open>iter_rs_files root\<close> gives the files below \<open>root\<close> whose name ends in \<open>.rs\<close>, with their
  text (what \<open>read_text\<close> returns for them); a root that does not exist has no files.
\<close>

type_synonym tree = "(string \<times> string) list"

datatype error = RuntimeError string | SystemExit string | FileNotFoundError string

record PubItem =
  name :: string
  kind :: string
  rel_path :: string

definition ident_first :: "citem list" where
  "ident_first = [Rng CHR ''A'' CHR ''Z'', Rng CHR ''a'' CHR ''z'', Ch CHR ''_'']"

definition ident_rest :: "citem list" where
  "ident_rest = [Rng CHR ''A'' CHR ''Z'', Rng CHR ''a'' CHR ''z'', Rng CHR ''0'' CHR ''9'', Ch CHR ''_'']"

text \<open>\<open>(?m)^\s*pub\s+(trait|struct|enum|type)\s+([A-Za-z_][A-Za-z0-9_]*)\b\<close>\<close>

definition PUB_DECL_RE :: re where
  "PUB_DECL_RE = seq [Bol, Star [WS], Lit ''pub'', plus [WS],
     Grp 1 (Alt (Lit ''trait'') (Alt (Lit ''struct'') (Alt (Lit ''enum'') (Lit ''type'')))),
     plus [WS], Grp 2 (Seq (Set ident_first) (Star ident_rest)), WordB]"

definition iter_rs_files :: "string \<Rightarrow> tree \<Rightarrow> (string \<times> string) list" where
  "iter_rs_files root fs =
     filter (\<lambda>(path, contents). startswith path (root @ ''/'') \<and> endswith path ''.rs'') fs"



definition collect_public_items :: "string \<Rightarrow> tree \<Rightarrow> PubItem list" where
  "collect_public_items dir_path fs =
     concat (map (\<lambda>(file_path, contents).
         map (\<lambda>m. \<lparr>name = group m 2, kind = group m 1, rel_path = file_path\<rparr>)
           (finditer PUB_DECL_RE contents))
       (iter_rs_files dir_path fs))"










definition is_boundary_path :: "string \<Rightarrow> bool" where
  "is_boundary_path path_str =
     list_ex (\<lambda>token. contains path_str token)
       [''/application/handlers/'', ''/application/request_handlers/'',
        ''/application/requests/'', ''/presentation/'', ''/routes/'']"

definition suggest_port_target :: "string \<Rightarrow> string list \<Rightarrow> string" where
  "suggest_port_target item_name usage_paths =
     (if item_name \<in> {''RequestContext'', ''UseCaseContext''} then ''inbound (boundary DTO)''
      else if item_name \<in> {''RequestHandler''} then ''inbound (boundary trait)''
      else if endswith item_name ''UseCasePort'' then ''inbound''
      else if usage_paths \<noteq> [] \<and> \<not> list_all is_boundary_path usage_paths
        then ''outbound (misplaced today)''
      else ''inbound'')"


















text \<open>\<open>(?ms)^{start}\s*\n.*?^\s*{end}\s*$\<close>, the markers escaped.\<close>

definition block_pattern :: "string \<Rightarrow> string \<Rightarrow> re" where
  "block_pattern start_line end_line =
     seq [Bol, Lit start_line, Star [WS], Set [Ch nl], Lazy [AnyCh],
          Bol, Star [WS], Lit end_line, Star [WS], Eol]"

definition start_of :: "string \<Rightarrow> string" where
  "start_of start_marker = ''%% '' @ start_marker @ '' %%''"

definition end_of :: "string \<Rightarrow> string" where
  "end_of end_marker = ''%% /'' @ end_marker @ '' %%''"

definition repl :: "string \<Rightarrow> string \<Rightarrow> string \<Rightarrow> string" where
  "repl start_line end_line replacement =
     start_line @ [nl, nl] @ rstrip replacement @ [nl, nl] @ end_line"

definition replace_block :: "string \<Rightarrow> string \<Rightarrow> string \<Rightarrow> string \<Rightarrow> error + string" where
  "replace_block text start_marker end_marker replacement =
     (let start_line = start_of start_marker; end_line = end_of end_marker;
          (new_text, n) = subn1 (block_pattern start_line end_line)
                            (repl start_line end_line replacement) text
      in if n \<noteq> 1
         then Inl (RuntimeError (''Expected exactly 1 replace for markers '' @ start_line
                     @ ''..'' @ end_line @ '', got '' @ str_nat n))
         else Inr new_text)"






section \<open>\<open>scripts/inventory_unhandled_request_payloads.py\<close>\<close>







section \<open>Properties of the string functions\<close>

lemma contains_iff: "contains s t \<longleftrightarrow> (\<exists>a b. s = a @ t @ b)"
proof (induction s)
  case Nil
  then show ?case by auto
next
  case (Cons c s)
  show ?case
  proof
    assume "contains (c # s) t"
    then consider "startswith (c # s) t" | "contains s t" by auto
    then show "\<exists>a b. c # s = a @ t @ b"
    proof cases
      case 1
      then obtain b where "c # s = t @ b" by (auto simp: startswith_iff)
      then have "c # s = [] @ t @ b" by simp
      then show ?thesis by blast
    next
      case 2
      with Cons obtain a b where "s = a @ t @ b" by auto
      then have "c # s = (c # a) @ t @ b" by simp
      then show ?thesis by blast
    qed
  next
    assume "\<exists>a b. c # s = a @ t @ b"
    then obtain a b where ab: "c # s = a @ t @ b" by auto
    show "contains (c # s) t"
    proof (cases a)
      case Nil
      with ab have "startswith (c # s) t" by (auto simp: startswith_iff)
      then show ?thesis by simp
    next
      case (Cons x a')
      with ab have "s = a' @ t @ b" by simp
      with Cons.IH have "contains s t" by blast
      then show ?thesis by simp
    qed
  qed
qed


section \<open>The taxonomy classifier\<close>

lemma is_boundary_path_iff:
  "is_boundary_path p \<longleftrightarrow>
     (\<exists>token \<in> {''/application/handlers/'', ''/application/request_handlers/'',
         ''/application/requests/'', ''/presentation/'', ''/routes/''}. \<exists>a b. p = a @ token @ b)"
  unfolding is_boundary_path_def by (simp add: contains_iff)

text \<open>
  Claim C5. A name in the boundary-DTO exception list is classified
  \<open>inbound (boundary DTO)\<close> whatever its usage paths are, also when every usage lies
  outside the boundary directories; the boundary-trait exception behaves alike. Both
  exception lists are consulted before the usage locations.
\<close>

theorem exception_lists_first:
  "(item_name \<in> {''RequestContext'', ''UseCaseContext''} \<longrightarrow>
      suggest_port_target item_name usage_paths = ''inbound (boundary DTO)'') \<and>
   (item_name = ''RequestHandler'' \<longrightarrow>
      suggest_port_target item_name usage_paths = ''inbound (boundary trait)'')"
  by (simp add: suggest_port_target_def)

theorem exception_lists_first_witness:
  "''UseCaseContext'' \<in> {''RequestContext'', ''UseCaseContext''} \<and>
   \<not> list_all is_boundary_path [''crates/engine-app/src/application/services/world.rs''] \<and>
   suggest_port_target ''UseCaseContext'' [''crates/engine-app/src/application/services/world.rs'']
     = ''inbound (boundary DTO)'' \<and>
   suggest_port_target ''RequestHandler'' [''crates/engine-app/src/application/services/world.rs'']
     = ''inbound (boundary trait)''"
proof -
  have "\<not> list_all is_boundary_path [''crates/engine-app/src/application/services/world.rs'']"
    by code_simp
  then show ?thesis
    using exception_lists_first [of "''UseCaseContext''"
        "[''crates/engine-app/src/application/services/world.rs'']"]
      exception_lists_first [of "''RequestHandler''"
        "[''crates/engine-app/src/application/services/world.rs'']"]
    by simp
qed

text \<open>
  Claim C6. For a name that is in neither exception list and does not end in
  \<open>UseCasePort\<close>: if there is a usage path, and one of the usage paths contains none of the
  boundary-directory substrings, the suggestion is \<open>outbound (misplaced today)\<close>; if there
  is no usage path, or every usage path contains a boundary-directory substring, it is
  \<open>inbound\<close>.
\<close>

theorem usage_location_rule:
  assumes "item_name \<notin> {''RequestContext'', ''UseCaseContext''}"
    and "item_name \<notin> {''RequestHandler''}"
    and "\<not> endswith item_name ''UseCasePort''"
  shows "(usage_paths \<noteq> [] \<and> (\<exists>p \<in> set usage_paths. \<not> is_boundary_path p) \<longrightarrow>
            suggest_port_target item_name usage_paths = ''outbound (misplaced today)'') \<and>
         (usage_paths = [] \<or> (\<forall>p \<in> set usage_paths. is_boundary_path p) \<longrightarrow>
            suggest_port_target item_name usage_paths = ''inbound'')"
  using assms by (auto simp: suggest_port_target_def list_all_iff)

theorem usage_location_rule_witness:
  "''WorldPort'' \<notin> {''RequestContext'', ''UseCaseContext''} \<and>
   ''WorldPort'' \<notin> {''RequestHandler''} \<and>
   \<not> endswith ''WorldPort'' ''UseCasePort'' \<and>
   suggest_port_target ''WorldPort''
     [''crates/engine-app/src/application/handlers/a.rs'',
      ''crates/engine-app/src/application/services/b.rs''] = ''outbound (misplaced today)'' \<and>
   suggest_port_target ''WorldPort'' [] = ''inbound'' \<and>
   suggest_port_target ''WorldPort''
     [''crates/engine-app/src/application/handlers/a.rs''] = ''inbound''"
proof -
  have h1: "''WorldPort'' \<notin> {''RequestContext'', ''UseCaseContext''}" by simp
  have h2: "''WorldPort'' \<notin> {''RequestHandler''}" by simp
  have h3: "\<not> endswith ''WorldPort'' ''UseCasePort''" by code_simp
  have b1: "is_boundary_path ''crates/engine-app/src/application/handlers/a.rs''"
    by code_simp
  have b2: "\<not> is_boundary_path ''crates/engine-app/src/application/services/b.rs''"
    by code_simp
  from b1 b2 h1 h2 h3
    usage_location_rule [OF h1 h2 h3, of "[''crates/engine-app/src/application/handlers/a.rs'',
      ''crates/engine-app/src/application/services/b.rs'']"]
    usage_location_rule [OF h1 h2 h3, of "[]"]
    usage_location_rule [OF h1 h2 h3, of "[''crates/engine-app/src/application/handlers/a.rs'']"]
  show ?thesis by simp
qed
section \<open>Properties of the pattern matcher\<close>

lemma advance_Nil [simp]: "advance [] p = p"
  by (simp add: advance_def)

lemma advance_Cons: "advance (c # t) p = advance t (Some c)"
  by (simp add: advance_def)

lemma advance_append: "advance (a @ b) p = advance b (advance a p)"
  by (simp add: advance_def)

lemma rmatch_Lit_iff:
  "st' \<in> set (rmatch (Lit l) (p, s, g)) \<longleftrightarrow> (\<exists>s'. s = l @ s' \<and> st' = (advance l p, s', g))"
  by (auto simp: startswith_iff)

lemma rmatch_Set_iff:
  "st' \<in> set (rmatch (Set k) (p, s, g)) \<longleftrightarrow>
     (\<exists>c cs. s = c # cs \<and> cmem k c \<and> st' = (Some c, cs, g))"
  by (cases s) auto

lemma rmatch_Star_iff:
  "st' \<in> set (rmatch (Star k) (p, s, g)) \<longleftrightarrow>
     (\<exists>t s'. s = t @ s' \<and> (\<forall>c \<in> set t. cmem k c) \<and> st' = (advance t p, s', g))"
proof (induction s arbitrary: p)
  case Nil
  show ?case by auto
next
  case (Cons c cs)
  show ?case
  proof (cases "cmem k c")
    case True
    have "st' \<in> set (rmatch (Star k) (p, c # cs, g)) \<longleftrightarrow>
          st' \<in> set (rmatch (Star k) (Some c, cs, g)) \<or> st' = (p, c # cs, g)"
      using True by auto
    also have "\<dots> \<longleftrightarrow> (\<exists>t s'. cs = t @ s' \<and> (\<forall>x \<in> set t. cmem k x)
                   \<and> st' = (advance t (Some c), s', g)) \<or> st' = (p, c # cs, g)"
      by (simp only: Cons.IH)
    also have "\<dots> \<longleftrightarrow> (\<exists>t s'. c # cs = t @ s' \<and> (\<forall>x \<in> set t. cmem k x)
                   \<and> st' = (advance t p, s', g))" (is "?L \<longleftrightarrow> ?R")
    proof
      assume ?L
      then show ?R
      proof
        assume "\<exists>t s'. cs = t @ s' \<and> (\<forall>x \<in> set t. cmem k x) \<and> st' = (advance t (Some c), s', g)"
        then obtain t s' where "cs = t @ s'" "\<forall>x \<in> set t. cmem k x"
          "st' = (advance t (Some c), s', g)" by blast
        with True have "c # cs = (c # t) @ s' \<and> (\<forall>x \<in> set (c # t). cmem k x)
           \<and> st' = (advance (c # t) p, s', g)" by (simp add: advance_Cons)
        then show ?R by blast
      next
        assume "st' = (p, c # cs, g)"
        then have "c # cs = [] @ (c # cs) \<and> (\<forall>x \<in> set []. cmem k x)
           \<and> st' = (advance [] p, c # cs, g)" by simp
        then show ?R by blast
      qed
    next
      assume ?R
      then obtain t s' where t: "c # cs = t @ s'" "\<forall>x \<in> set t. cmem k x"
        "st' = (advance t p, s', g)" by blast
      show ?L
      proof (cases t)
        case Nil
        with t show ?thesis by simp
      next
        case (Cons x t')
        with t have "cs = t' @ s' \<and> (\<forall>x \<in> set t'. cmem k x)
          \<and> st' = (advance t' (Some c), s', g)" by (simp add: advance_Cons)
        then show ?thesis by blast
      qed
    qed
    finally show ?thesis .
  next
    case False
    have "st' \<in> set (rmatch (Star k) (p, c # cs, g)) \<longleftrightarrow> st' = (p, c # cs, g)"
      using False by auto
    also have "\<dots> \<longleftrightarrow> (\<exists>t s'. c # cs = t @ s' \<and> (\<forall>x \<in> set t. cmem k x)
                   \<and> st' = (advance t p, s', g))" (is "?L \<longleftrightarrow> ?R")
    proof
      assume ?L
      then have "c # cs = [] @ (c # cs) \<and> (\<forall>x \<in> set []. cmem k x)
           \<and> st' = (advance [] p, c # cs, g)" by simp
      then show ?R by blast
    next
      assume ?R
      then obtain t s' where t: "c # cs = t @ s'" "\<forall>x \<in> set t. cmem k x"
        "st' = (advance t p, s', g)" by blast
      show ?L
      proof (cases t)
        case Nil
        with t show ?thesis by simp
      next
        case (Cons x t')
        with t False show ?thesis by simp
      qed
    qed
    finally show ?thesis .
  qed
qed

lemma rmatch_Lazy_set: "set (rmatch (Lazy k) st) = set (rmatch (Star k) st)"
  by (induction "Lazy k" st rule: rmatch.induct) auto

lemma rmatch_Seq_iff:
  "st' \<in> set (rmatch (Seq a b) st) \<longleftrightarrow> (\<exists>y \<in> set (rmatch a st). st' \<in> set (rmatch b y))"
  by auto

fun nogrp :: "re \<Rightarrow> bool" where
  "nogrp (Seq a b) = (nogrp a \<and> nogrp b)"
| "nogrp (Alt a b) = (nogrp a \<and> nogrp b)"
| "nogrp (Grp n a) = False"
| "nogrp r = True"

lemma rmatch_Star_groups:
  "st' \<in> set (rmatch (Star k) (p, s, g)) \<Longrightarrow> snd (snd st') = g"
  unfolding rmatch_Star_iff by auto

lemma rmatch_Lazy_groups:
  "st' \<in> set (rmatch (Lazy k) (p, s, g)) \<Longrightarrow> snd (snd st') = g"
  unfolding rmatch_Lazy_set rmatch_Star_iff by auto

lemma rmatch_nogrp:
  "nogrp r \<Longrightarrow> st' \<in> set (rmatch r st) \<Longrightarrow> snd (snd st') = snd (snd st)"
proof (induction r arbitrary: st st')
  case (Lit l)
  obtain p s g where [simp]: "st = (p, s, g)" by (cases st)
  from Lit show ?case by (auto split: if_splits)
next
  case (Set k)
  obtain p s g where [simp]: "st = (p, s, g)" by (cases st)
  from Set show ?case unfolding \<open>st = (p, s, g)\<close> rmatch_Set_iff by auto
next
  case (Star k)
  obtain p s g where [simp]: "st = (p, s, g)" by (cases st)
  from Star show ?case using rmatch_Star_groups[of st' k p s g] by simp
next
  case (Lazy k)
  obtain p s g where [simp]: "st = (p, s, g)" by (cases st)
  from Lazy show ?case using rmatch_Lazy_groups[of st' k p s g] by simp
next
  case Bol
  obtain p s g where [simp]: "st = (p, s, g)" by (cases st)
  from Bol show ?case by (auto split: if_splits)
next
  case Eol
  obtain p s g where [simp]: "st = (p, s, g)" by (cases st)
  from Eol show ?case by (auto split: if_splits)
next
  case WordB
  obtain p s g where [simp]: "st = (p, s, g)" by (cases st)
  from WordB show ?case by (auto split: if_splits)
next
  case (Seq a b)
  from Seq.prems(2) obtain y where y: "y \<in> set (rmatch a st)" "st' \<in> set (rmatch b y)"
    unfolding rmatch_Seq_iff by blast
  from Seq.prems(1) have na: "nogrp a" and nb: "nogrp b" by simp_all
  from Seq.IH(1)[OF na y(1)] Seq.IH(2)[OF nb y(2)] show ?case by simp
next
  case (Alt a b)
  from Alt.prems(1) have na: "nogrp a" and nb: "nogrp b" by simp_all
  from Alt.prems(2) have "st' \<in> set (rmatch a st) \<or> st' \<in> set (rmatch b st)" by simp
  with Alt.IH(1)[OF na] Alt.IH(2)[OF nb] show ?case by blast
next
  case (Grp n a)
  then show ?case by simp
qed

lemma rmatch_Grp_elim:
  assumes "st' \<in> set (rmatch (Grp n a) (p, s, g))"
  obtains p' s' g' t where "(p', s', g') \<in> set (rmatch a (p, s, g))" and "s = t @ s'"
    and "st' = (p', s', (n, t) # g')"
proof -
  from assms obtain p' s' g' where m: "(p', s', g') \<in> set (rmatch a (p, s, g))"
    and st': "st' = (p', s', (n, take (length s - length s') s) # g')" by auto
  from rmatch_suffix[OF m] obtain t where t: "s = t @ s'" by auto
  then have "take (length s - length s') s = t" by simp
  with m t st' that show thesis by blast
qed

text \<open>An identifier: a letter or an underscore, then letters, digits and underscores.\<close>

definition ident_start :: "char \<Rightarrow> bool" where
  "ident_start c = (in_range 65 90 c \<or> in_range 97 122 c \<or> c = CHR ''_'')"

definition ident_char :: "char \<Rightarrow> bool" where
  "ident_char c = (in_range 65 90 c \<or> in_range 97 122 c \<or> in_range 48 57 c \<or> c = CHR ''_'')"

definition is_ident :: "string \<Rightarrow> bool" where
  "is_ident n = (case n of [] \<Rightarrow> False | c # cs \<Rightarrow> ident_start c \<and> list_all ident_char cs)"

lemma ord_consts: "ord CHR ''A'' = 65" "ord CHR ''Z'' = 90" "ord CHR ''a'' = 97"
    "ord CHR ''z'' = 122" "ord CHR ''0'' = 48" "ord CHR ''9'' = 57"
  by (simp_all add: ord_def)

lemma cmem_ident_first: "cmem ident_first c = ident_start c"
  by (auto simp: cmem_def ident_first_def ident_start_def ord_consts)

lemma cmem_ident_rest: "cmem ident_rest c = ident_char c"
  by (auto simp: cmem_def ident_rest_def ident_char_def ord_consts)

lemma ident_consumed:
  assumes "(p', s', g') \<in> set (rmatch (Seq (Set ident_first) (Star ident_rest)) (p, s, g))"
    and "s = t @ s'"
  shows "is_ident t"
proof -
  from iffD1[OF rmatch_Seq_iff assms(1)]
  obtain y where y: "y \<in> set (rmatch (Set ident_first) (p, s, g))"
    and s': "(p', s', g') \<in> set (rmatch (Star ident_rest) y)"
    by blast
  from iffD1[OF rmatch_Set_iff y]
  obtain c cs where c: "s = c # cs" "cmem ident_first c" "y = (Some c, cs, g)"
    by blast
  from s' c(3) have "(p', s', g') \<in> set (rmatch (Star ident_rest) (Some c, cs, g))"
    by (simp only:)
  from iffD1[OF rmatch_Star_iff this]
  obtain t2 s2 where t2: "cs = t2 @ s2" "\<forall>x \<in> set t2. cmem ident_rest x"
    "(p', s', g') = (advance t2 (Some c), s2, g)"
    by blast
  from t2(3) have "s2 = s'" by simp
  with c(1) t2(1) assms(2) have "t = c # t2" by simp
  with c(2) t2(2) show ?thesis
    by (simp add: is_ident_def cmem_ident_first cmem_ident_rest list_all_iff)
qed

lemma rmatch_Alt_iff:
  "st' \<in> set (rmatch (Alt a b) st) \<longleftrightarrow> st' \<in> set (rmatch a st) \<or> st' \<in> set (rmatch b st)"
  by simp

lemma lit_consumed:
  assumes "(p', s', g') \<in> set (rmatch (Lit l) (p, s, g))" and "s = t @ s'"
  shows "t = l"
proof -
  from iffD1[OF rmatch_Lit_iff assms(1)] have "s = l @ s'" by blast
  with assms(2) show ?thesis by simp
qed

lemma kind_consumed:
  assumes "(p', s', g') \<in> set (rmatch (Alt (Lit ''trait'') (Alt (Lit ''struct'')
             (Alt (Lit ''enum'') (Lit ''type'')))) (p, s, g))"
    and "s = t @ s'"
  shows "t \<in> {''trait'', ''struct'', ''enum'', ''type''}"
proof -
  from iffD1[OF rmatch_Alt_iff assms(1)]
  consider "(p', s', g') \<in> set (rmatch (Lit ''trait'') (p, s, g))"
    | "(p', s', g') \<in> set (rmatch (Alt (Lit ''struct'') (Alt (Lit ''enum'') (Lit ''type''))) (p, s, g))"
    by blast
  then show ?thesis
  proof cases
    case 1
    from lit_consumed[OF 1 assms(2)] show ?thesis by (simp only: insert_iff simp_thms)
  next
    case 2
    from iffD1[OF rmatch_Alt_iff 2]
    consider "(p', s', g') \<in> set (rmatch (Lit ''struct'') (p, s, g))"
      | "(p', s', g') \<in> set (rmatch (Alt (Lit ''enum'') (Lit ''type'')) (p, s, g))"
      by blast
    then show ?thesis
    proof cases
      case 1
      from lit_consumed[OF 1 assms(2)] show ?thesis by (simp only: insert_iff simp_thms)
    next
      case 2
      from iffD1[OF rmatch_Alt_iff 2]
      consider "(p', s', g') \<in> set (rmatch (Lit ''enum'') (p, s, g))"
        | "(p', s', g') \<in> set (rmatch (Lit ''type'') (p, s, g))"
        by blast
      then show ?thesis
      proof cases
        case 1
        from lit_consumed[OF 1 assms(2)] show ?thesis by (simp only: insert_iff simp_thms)
      next
        case 2
        from lit_consumed[OF 2 assms(2)] show ?thesis by (simp only: insert_iff simp_thms)
      qed
    qed
  qed
qed

lemma PUB_DECL_RE_groups:
  assumes "st' \<in> set (rmatch PUB_DECL_RE (p, s, []))"
  shows "\<exists>k n. snd (snd st') = [(2, n), (1, k)] \<and>
           k \<in> {''trait'', ''struct'', ''enum'', ''type''} \<and> is_ident n"
proof -
  define K where "K = Alt (Lit ''trait'') (Alt (Lit ''struct'') (Alt (Lit ''enum'') (Lit ''type'')))"
  define I where "I = Seq (Set ident_first) (Star ident_rest)"
  have ng: "nogrp Bol" "nogrp (Star [WS])" "nogrp (Lit ''pub'')" "nogrp (plus [WS])"
    "nogrp WordB" "nogrp K" "nogrp I"
    by (simp_all add: plus_def K_def I_def)
  have "PUB_DECL_RE = Seq Bol (Seq (Star [WS]) (Seq (Lit ''pub'') (Seq (plus [WS])
          (Seq (Grp 1 K) (Seq (plus [WS]) (Seq (Grp 2 I) WordB))))))"
    by (simp add: PUB_DECL_RE_def K_def I_def)
  from assms[unfolded this] have m0: "st' \<in> set (rmatch (Seq Bol (Seq (Star [WS]) (Seq (Lit ''pub'')
      (Seq (plus [WS]) (Seq (Grp 1 K) (Seq (plus [WS]) (Seq (Grp 2 I) WordB))))))) (p, s, []))" .
  from iffD1[OF rmatch_Seq_iff m0] obtain x1 where x1: "x1 \<in> set (rmatch Bol (p, s, []))"
    and n1: "st' \<in> set (rmatch (Seq (Star [WS]) (Seq (Lit ''pub'')
      (Seq (plus [WS]) (Seq (Grp 1 K) (Seq (plus [WS]) (Seq (Grp 2 I) WordB)))))) x1)"
    by blast
  from iffD1[OF rmatch_Seq_iff n1] obtain x2 where x2: "x2 \<in> set (rmatch (Star [WS]) x1)"
    and n2: "st' \<in> set (rmatch (Seq (Lit ''pub'')
      (Seq (plus [WS]) (Seq (Grp 1 K) (Seq (plus [WS]) (Seq (Grp 2 I) WordB))))) x2)"
    by blast
  from iffD1[OF rmatch_Seq_iff n2] obtain x3 where x3: "x3 \<in> set (rmatch (Lit ''pub'') x2)"
    and n3: "st' \<in> set (rmatch
      (Seq (plus [WS]) (Seq (Grp 1 K) (Seq (plus [WS]) (Seq (Grp 2 I) WordB)))) x3)"
    by blast
  from iffD1[OF rmatch_Seq_iff n3] obtain y1 where y1: "y1 \<in> set (rmatch (plus [WS]) x3)"
    and m1: "st' \<in> set (rmatch (Seq (Grp 1 K) (Seq (plus [WS]) (Seq (Grp 2 I) WordB))) y1)"
    by blast
  from iffD1[OF rmatch_Seq_iff m1] obtain y2 where y2: "y2 \<in> set (rmatch (Grp 1 K) y1)"
    and m2: "st' \<in> set (rmatch (Seq (plus [WS]) (Seq (Grp 2 I) WordB)) y2)"
    by blast
  from iffD1[OF rmatch_Seq_iff m2] obtain y3 where y3: "y3 \<in> set (rmatch (plus [WS]) y2)"
    and m3: "st' \<in> set (rmatch (Seq (Grp 2 I) WordB) y3)"
    by blast
  from iffD1[OF rmatch_Seq_iff m3] obtain y4 where y4: "y4 \<in> set (rmatch (Grp 2 I) y3)"
    and st': "st' \<in> set (rmatch WordB y4)"
    by blast
  from rmatch_nogrp[OF ng(1) x1] rmatch_nogrp[OF ng(2) x2] rmatch_nogrp[OF ng(3) x3]
    rmatch_nogrp[OF ng(4) y1]
  have gy1: "snd (snd y1) = []" by simp
  obtain p1 s1 g1 where y1': "y1 = (p1, s1, g1)" by (cases y1)
  from gy1 y1' have g1: "g1 = []" by simp
  from y2 y1' have "y2 \<in> set (rmatch (Grp 1 K) (p1, s1, g1))" by simp
  then obtain p2 s2 g2 k where k: "(p2, s2, g2) \<in> set (rmatch K (p1, s1, g1))"
    "s1 = k @ s2" and y2': "y2 = (p2, s2, (1, k) # g2)"
    by (rule rmatch_Grp_elim)
  from rmatch_nogrp[OF ng(6) k(1)] g1 have g2: "g2 = []" by simp
  from kind_consumed[OF k(1)[unfolded K_def] k(2)]
  have kk: "k \<in> {''trait'', ''struct'', ''enum'', ''type''}" .
  obtain p3 s3 g3 where y3': "y3 = (p3, s3, g3)" by (cases y3)
  from rmatch_nogrp[OF ng(4) y3] y3' y2' g2 have g3: "g3 = [(1, k)]" by simp
  from y4 y3' have "y4 \<in> set (rmatch (Grp 2 I) (p3, s3, g3))" by simp
  then obtain p4 s4 g4 n where n: "(p4, s4, g4) \<in> set (rmatch I (p3, s3, g3))"
    "s3 = n @ s4" and y4': "y4 = (p4, s4, (2, n) # g4)"
    by (rule rmatch_Grp_elim)
  from rmatch_nogrp[OF ng(7) n(1)] g3 have g4: "g4 = [(1, k)]" by simp
  from ident_consumed[OF n(1)[unfolded I_def] n(2)] have nn: "is_ident n" .
  from rmatch_nogrp[OF ng(5) st'] y4' g4 have "snd (snd st') = [(2, n), (1, k)]" by simp
  with kk nn show ?thesis by blast
qed

lemma search_from_match:
  "search_from r adv p s = Some m \<Longrightarrow>
   \<exists>p0 s0 st. st \<in> set (rmatch r (p0, s0, [])) \<and> m_groups m = snd (snd st)"
proof (induction s arbitrary: adv p m)
  case Nil
  then obtain st where st: "match_here r adv p [] = Some st" and m: "m = mk_match [] st"
    by auto
  obtain p' s' g' where st': "st = (p', s', g')" by (cases st)
  from match_here_Some[OF st[unfolded st']] have "(p', s', g') \<in> set (rmatch r (p, [], []))"
    by simp
  moreover from m st' have "m_groups m = snd (snd (p', s', g'))" by (simp add: mk_match_def)
  ultimately show ?case by blast
next
  case (Cons c cs)
  show ?case
  proof (cases "match_here r adv p (c # cs)")
    case (Some st)
    obtain p' s' g' where st': "st = (p', s', g')" by (cases st)
    from Some Cons.prems have m: "m = mk_match (c # cs) st" by simp
    from match_here_Some[OF Some[unfolded st']]
    have "(p', s', g') \<in> set (rmatch r (p, c # cs, []))" by simp
    moreover from m st' have "m_groups m = snd (snd (p', s', g'))" by (simp add: mk_match_def)
    ultimately show ?thesis by blast
  next
    case None
    with Cons.prems obtain m' where m': "search_from r False (Some c) cs = Some m'"
      and m: "m = m'\<lparr>m_before := c # m_before m'\<rparr>" by auto
    from Cons.IH[OF m'] m show ?thesis by simp
  qed
qed

lemma finditer_from_match:
  "m \<in> set (finditer_from r adv p s) \<Longrightarrow>
   \<exists>p0 s0 st. st \<in> set (rmatch r (p0, s0, [])) \<and> m_groups m = snd (snd st)"
proof (induction r adv p s rule: finditer_from.induct)
  case (1 r adv p s)
  show ?case
  proof (cases "search_from r adv p s")
    case None
    with 1(2) show ?thesis by (simp add: finditer_from.simps)
  next
    case (Some m')
    with 1(2) have "m = m' \<or> m \<in> set (finditer_from r (m_text m' = []) (m_prev m') (m_after m'))"
      by (simp add: finditer_from.simps[of r adv p s])
    then show ?thesis
    proof
      assume "m = m'"
      with search_from_match[OF Some] show ?thesis by simp
    next
      assume "m \<in> set (finditer_from r (m_text m' = []) (m_prev m') (m_after m'))"
      from 1(1)[OF Some this] show ?thesis .
    qed
  qed
qed

lemma match_here_False:
  "match_here r False p s = (case rmatch r (p, s, []) of [] \<Rightarrow> None | st # _ \<Rightarrow> Some st)"
  by (simp add: match_here_def)

lemma match_here_None_iff: "match_here r False p s = None \<longleftrightarrow> rmatch r (p, s, []) = []"
  by (simp add: match_here_False split: list.splits)

lemma match_here_Some_hd:
  "match_here r False p s = Some st \<longleftrightarrow> rmatch r (p, s, []) \<noteq> [] \<and> st = hd (rmatch r (p, s, []))"
  by (auto simp: match_here_False split: list.splits)

lemma mk_match_sel [simp]:
  "m_before (mk_match s (p', s', g')) = []"
  "m_text (mk_match s (p', s', g')) = take (length s - length s') s"
  "m_after (mk_match s (p', s', g')) = s'"
  "m_prev (mk_match s (p', s', g')) = p'"
  "m_groups (mk_match s (p', s', g')) = g'"
  by (simp_all add: mk_match_def)

lemma search_from_None_iff:
  "search_from r False p s = None \<longleftrightarrow> (\<forall>a b. s = a @ b \<longrightarrow> rmatch r (advance a p, b, []) = [])"
proof (induction s arbitrary: p)
  case Nil
  show ?case by (simp add: match_here_None_iff)
next
  case (Cons c cs)
  have "search_from r False p (c # cs) = None \<longleftrightarrow>
        rmatch r (p, c # cs, []) = [] \<and> search_from r False (Some c) cs = None"
  proof (cases "match_here r False p (c # cs)")
    case None
    then show ?thesis by (simp add: match_here_None_iff[symmetric])
  next
    case (Some st)
    then have "rmatch r (p, c # cs, []) \<noteq> []" by (simp add: match_here_Some_hd)
    with Some show ?thesis by simp
  qed
  also have "\<dots> \<longleftrightarrow> rmatch r (p, c # cs, []) = [] \<and>
        (\<forall>a b. cs = a @ b \<longrightarrow> rmatch r (advance a (Some c), b, []) = [])"
    by (simp only: Cons.IH)
  also have "\<dots> \<longleftrightarrow> (\<forall>a b. c # cs = a @ b \<longrightarrow> rmatch r (advance a p, b, []) = [])"
    (is "?L \<longleftrightarrow> ?R")
  proof
    assume L: ?L
    show ?R
    proof (intro allI impI)
      fix a b assume ab: "c # cs = a @ b"
      show "rmatch r (advance a p, b, []) = []"
      proof (cases a)
        case Nil
        with ab L show ?thesis by simp
      next
        case (Cons x a')
        with ab have "cs = a' @ b" "x = c" by simp_all
        with L Cons show ?thesis by (simp add: advance_Cons)
      qed
    qed
  next
    assume R: ?R
    have "rmatch r (advance [] p, c # cs, []) = []" using R by blast
    moreover have "\<forall>a b. cs = a @ b \<longrightarrow> rmatch r (advance a (Some c), b, []) = []"
    proof (intro allI impI)
      fix a b assume "cs = a @ b"
      then have "c # cs = (c # a) @ b" by simp
      with R have "rmatch r (advance (c # a) p, b, []) = []" by blast
      then show "rmatch r (advance a (Some c), b, []) = []" by (simp add: advance_Cons)
    qed
    ultimately show ?L by simp
  qed
  finally show ?case .
qed

lemma search_from_Some_conj:
  "search_from r False p s = Some m \<Longrightarrow>
     s = m_before m @ m_text m @ m_after m \<and>
     rmatch r (advance (m_before m) p, m_text m @ m_after m, []) \<noteq> [] \<and>
     (m_prev m, m_after m, m_groups m)
        = hd (rmatch r (advance (m_before m) p, m_text m @ m_after m, [])) \<and>
     (\<forall>a b. s = a @ b \<and> length a < length (m_before m) \<longrightarrow>
         rmatch r (advance a p, b, []) = [])"
proof (induction s arbitrary: p m)
  case Nil
  from Nil.prems obtain st where st: "match_here r False p [] = Some st"
    and m: "m = mk_match [] st" by auto
  obtain p' s' g' where st': "st = (p', s', g')" by (cases st)
  from st have ne: "rmatch r (p, [], []) \<noteq> []" and hd: "st = hd (rmatch r (p, [], []))"
    by (simp_all add: match_here_Some_hd)
  from ne hd have "st \<in> set (rmatch r (p, [], []))" by simp
  from rmatch_suffix[OF this] st' have s': "s' = []" by simp
  from m st' s' ne hd show ?case by simp
next
  case (Cons c cs)
  show ?case
  proof (cases "match_here r False p (c # cs)")
    case (Some st)
    obtain p' s' g' where st': "st = (p', s', g')" by (cases st)
    from Some Cons.prems have m: "m = mk_match (c # cs) st" by simp
    from Some have ne: "rmatch r (p, c # cs, []) \<noteq> []"
      and hd: "st = hd (rmatch r (p, c # cs, []))"
      by (simp_all add: match_here_Some_hd)
    from ne hd have "st \<in> set (rmatch r (p, c # cs, []))" by simp
    from rmatch_suffix[OF this] st' obtain t where t: "c # cs = t @ s'" by auto
    then have tk: "take (length (c # cs) - length s') (c # cs) = t" by simp
    from m st' tk have sel: "m_before m = []" "m_text m = t" "m_after m = s'"
      "m_prev m = p'" "m_groups m = g'" by (simp_all del: take_Suc_Cons)
    show ?thesis using sel t ne hd st' by simp
  next
    case None
    with Cons.prems obtain m' where m': "search_from r False (Some c) cs = Some m'"
      and m: "m = m'\<lparr>m_before := c # m_before m'\<rparr>" by auto
    note ih = Cons.IH[OF m']
    from None have e0: "rmatch r (p, c # cs, []) = []" by (simp add: match_here_None_iff)
    have 4: "\<forall>a b. c # cs = a @ b \<and> length a < length (m_before m) \<longrightarrow>
         rmatch r (advance a p, b, []) = []"
    proof (intro allI impI, elim conjE)
      fix a b assume ab: "c # cs = a @ b" and l: "length a < length (m_before m)"
      show "rmatch r (advance a p, b, []) = []"
      proof (cases a)
        case Nil
        with ab e0 show ?thesis by simp
      next
        case (Cons x a')
        with ab have "cs = a' @ b" "x = c" by simp_all
        moreover from l Cons m have "length a' < length (m_before m')" by simp
        ultimately show ?thesis using ih Cons by (simp add: advance_Cons)
      qed
    qed
    from ih m 4 show ?thesis by (simp add: advance_Cons)
  qed
qed

section \<open>The declaration scanner\<close>

text \<open>
  Claim C3, amended. Every item the scanner collects has one of the four kinds and a name
  that starts with a letter of either case or an underscore and goes on with letters,
  digits and underscores.
\<close>

theorem collected_names_are_identifiers:
  assumes "it \<in> set (collect_public_items dir_path fs)"
  shows "is_ident (name it) \<and> kind it \<in> {''trait'', ''struct'', ''enum'', ''type''}"
proof -
  from assms obtain file_path contents m where
    m: "m \<in> set (finditer PUB_DECL_RE contents)"
    and it: "it = \<lparr>name = group m 2, kind = group m 1, rel_path = file_path\<rparr>"
    by (auto simp: collect_public_items_def)
  from finditer_from_match[OF m[unfolded finditer_def]]
  obtain p0 s0 st where st: "st \<in> set (rmatch PUB_DECL_RE (p0, s0, []))"
    and g: "m_groups m = snd (snd st)" by blast
  from PUB_DECL_RE_groups[OF st] g obtain k n where
    "m_groups m = [(2, n), (1, k)]" "k \<in> {''trait'', ''struct'', ''enum'', ''type''}" "is_ident n"
    by auto
  with it show ?thesis by (simp add: group_def)
qed

theorem collected_names_are_identifiers_witness:
  "\<lparr>name = ''lower_case'', kind = ''struct'',
     rel_path = ''crates/engine-ports/src/inbound/a.rs''\<rparr>
     \<in> set (collect_public_items ''crates/engine-ports/src/inbound''
              [(''crates/engine-ports/src/inbound/a.rs'', ''pub struct lower_case'')]) \<and>
   is_ident ''lower_case'' \<and> ''struct'' \<in> {''trait'', ''struct'', ''enum'', ''type''}"
proof -
  have mem: "\<lparr>name = ''lower_case'', kind = ''struct'',
       rel_path = ''crates/engine-ports/src/inbound/a.rs''\<rparr>
     \<in> set (collect_public_items ''crates/engine-ports/src/inbound''
              [(''crates/engine-ports/src/inbound/a.rs'', ''pub struct lower_case'')])"
    by code_simp
  from mem collected_names_are_identifiers [OF mem] show ?thesis by simp
qed

text \<open>
  The claim C3 as stated fails: the name in a declaration may start with a lower-case
  letter or an underscore.
\<close>

theorem lower_case_is_collected:
  "collect_public_items ''crates/engine-ports/src/inbound''
     [(''crates/engine-ports/src/inbound/a.rs'', ''pub struct lower_case'')]
   = [\<lparr>name = ''lower_case'', kind = ''struct'',
        rel_path = ''crates/engine-ports/src/inbound/a.rs''\<rparr>]"
  by code_simp


section \<open>The collision detector\<close>












section \<open>The request payload variants\<close>


lemma cmem_nl [simp]: "cmem [Ch nl] c \<longleftrightarrow> c = nl"
  by (simp add: cmem_def)

lemma cmem_WS [simp]: "cmem [WS] c \<longleftrightarrow> isspace c"
  by (simp add: cmem_def)























section \<open>The command\<close>






section \<open>The table renderer\<close>









section \<open>The block splicer\<close>

text \<open>
  Claim C1 does not hold of \<open>replace_block\<close>: the substitution is made with \<open>count=1\<close>,
  so the number of replacements is 0 or 1 and the test \<open>n != 1\<close> only detects a missing
  block. With the block present twice, the first one is replaced and the text is returned.
\<close>

theorem duplicate_markers_replace_first:
  "replace_block (''%% A %%'' @ [nl] @ ''x'' @ [nl] @ ''%% /A %%'' @ [nl]
                  @ ''%% A %%'' @ [nl] @ ''y'' @ [nl] @ ''%% /A %%'') ''A'' ''A'' ''z''
   = Inr (''%% A %%'' @ [nl, nl] @ ''z'' @ [nl, nl] @ ''%% /A %%'' @ [nl]
          @ ''%% A %%'' @ [nl] @ ''y'' @ [nl] @ ''%% /A %%'')"
  by code_simp

section \<open>Idempotence of the block splicer\<close>

text \<open>
  The first result of a sequence is the first result of its second part, at the first
  result of the first part that lets the second part succeed. For a greedy star this is
  the longest run, for a lazy star the shortest.
\<close>

lemma hd_concat_map:
  "concat (map f xs) \<noteq> [] \<Longrightarrow> \<exists>y \<in> set xs. f y \<noteq> [] \<and> hd (concat (map f xs)) = hd (f y)"
proof (induction xs)
  case Nil
  then show ?case by simp
next
  case (Cons x xs)
  show ?case
  proof (cases "f x = []")
    case True
    with Cons show ?thesis by simp
  next
    case False
    then show ?thesis by simp
  qed
qed

lemma rmatch_Seq_hd:
  assumes "rmatch (Seq a b) st \<noteq> []"
  obtains y where "y \<in> set (rmatch a st)" and "rmatch b y \<noteq> []"
    and "hd (rmatch (Seq a b) st) = hd (rmatch b y)"
proof -
  from assms have "concat (map (rmatch b) (rmatch a st)) \<noteq> []" by simp
  from hd_concat_map[OF this] that show thesis by auto
qed

lemma nonempty_iff: "xs \<noteq> [] \<longleftrightarrow> (\<exists>x. x \<in> set xs)"
  by (cases xs) auto

lemma rmatch_Seq_nonempty:
  "rmatch (Seq a b) st \<noteq> [] \<longleftrightarrow> (\<exists>y \<in> set (rmatch a st). rmatch b y \<noteq> [])"
  by auto

lemma rmatch_Seq_Star_Nil:
  "rmatch (Seq (Star k) r) (p, [], g) = rmatch r (p, [], g)"
  by simp

lemma rmatch_Seq_Star_Cons:
  "rmatch (Seq (Star k) r) (p, c # cs, g) =
     (if cmem k c then rmatch (Seq (Star k) r) (Some c, cs, g) @ rmatch r (p, c # cs, g)
      else rmatch r (p, c # cs, g))"
  by simp

lemma rmatch_Seq_Lazy_Nil:
  "rmatch (Seq (Lazy k) r) (p, [], g) = rmatch r (p, [], g)"
  by simp

lemma rmatch_Seq_Lazy_Cons:
  "rmatch (Seq (Lazy k) r) (p, c # cs, g) =
     (if cmem k c then rmatch r (p, c # cs, g) @ rmatch (Seq (Lazy k) r) (Some c, cs, g)
      else rmatch r (p, c # cs, g))"
  by simp

lemma rmatch_Seq_Star_empty:
  assumes "rmatch (Seq (Star k) r) (p, s, g) = []"
    and "s = t @ s'" and "\<forall>c \<in> set t. cmem k c"
  shows "rmatch r (advance t p, s', g) = []"
proof (rule ccontr)
  assume "rmatch r (advance t p, s', g) \<noteq> []"
  moreover from assms(2,3) have "(advance t p, s', g) \<in> set (rmatch (Star k) (p, s, g))"
    by (intro iffD2[OF rmatch_Star_iff]) blast
  ultimately have "rmatch (Seq (Star k) r) (p, s, g) \<noteq> []"
    by (intro iffD2[OF rmatch_Seq_nonempty]) blast
  with assms(1) show False by simp
qed

declare rmatch.simps [simp del]

text \<open>The first success of a greedy star takes the longest run after which the rest matches.\<close>

lemma rmatch_Seq_Star_hd:
  "rmatch (Seq (Star k) r) (p, s, g) \<noteq> [] \<Longrightarrow>
   \<exists>t s'. s = t @ s' \<and> (\<forall>c \<in> set t. cmem k c) \<and> rmatch r (advance t p, s', g) \<noteq> [] \<and>
     hd (rmatch (Seq (Star k) r) (p, s, g)) = hd (rmatch r (advance t p, s', g)) \<and>
     (\<forall>t2 s2. s = t2 @ s2 \<and> (\<forall>c \<in> set t2. cmem k c) \<and> length t < length t2 \<longrightarrow>
        rmatch r (advance t2 p, s2, g) = [])"
proof (induction s arbitrary: p)
  case Nil
  have f1: "[] = [] @ ([]::string)" by simp
  have f2: "\<forall>c \<in> set []. cmem k c" by simp
  from Nil have f3: "rmatch r (advance [] p, [], g) \<noteq> []"
    by (simp add: rmatch_Seq_Star_Nil)
  have f4: "hd (rmatch (Seq (Star k) r) (p, [], g)) = hd (rmatch r (advance [] p, [], g))"
    by (simp add: rmatch_Seq_Star_Nil)
  have f5: "\<forall>t2 s2. [] = t2 @ s2 \<and> (\<forall>c \<in> set t2. cmem k c) \<and> length ([]::string) < length t2 \<longrightarrow>
        rmatch r (advance t2 p, s2, g) = []" by simp
  show ?case
    by (rule exI[of _ "[]"], rule exI[of _ "[]"], intro conjI) (fact f1 f2 f3 f4 f5)+
next
  case (Cons c cs)
  let ?inner = "rmatch (Seq (Star k) r) (Some c, cs, g)"
  show ?case
  proof (cases "cmem k c \<and> ?inner \<noteq> []")
    case True
    then have kc: "cmem k c" and ne: "?inner \<noteq> []" by simp_all
    from Cons.IH[OF ne] obtain t s' where t: "cs = t @ s'" "\<forall>x \<in> set t. cmem k x"
      "rmatch r (advance t (Some c), s', g) \<noteq> []"
      "hd ?inner = hd (rmatch r (advance t (Some c), s', g))"
      and mx: "\<forall>t2 s2. cs = t2 @ s2 \<and> (\<forall>x \<in> set t2. cmem k x) \<and> length t < length t2 \<longrightarrow>
        rmatch r (advance t2 (Some c), s2, g) = []" by blast
    have hd: "hd (rmatch (Seq (Star k) r) (p, c # cs, g)) = hd ?inner"
      by (simp only: rmatch_Seq_Star_Cons kc if_True hd_append2[OF ne])
    have f1: "c # cs = (c # t) @ s'" using t(1) by simp
    have f2: "\<forall>x \<in> set (c # t). cmem k x" using t(2) kc by simp
    have f3: "rmatch r (advance (c # t) p, s', g) \<noteq> []" using t(3) by (simp add: advance_Cons)
    have f4: "hd (rmatch (Seq (Star k) r) (p, c # cs, g)) = hd (rmatch r (advance (c # t) p, s', g))"
      using hd t(4) by (simp add: advance_Cons)
    have f5: "\<forall>t2 s2. c # cs = t2 @ s2 \<and> (\<forall>x \<in> set t2. cmem k x) \<and>
        length (c # t) < length t2 \<longrightarrow> rmatch r (advance t2 p, s2, g) = []"
    proof (intro allI impI, elim conjE)
      fix t2 s2 assume a: "c # cs = t2 @ s2" "\<forall>x \<in> set t2. cmem k x" "length (c # t) < length t2"
      then obtain t2' where t2: "t2 = c # t2'" by (cases t2) auto
      with a have b: "cs = t2' @ s2 \<and> (\<forall>x \<in> set t2'. cmem k x) \<and> length t < length t2'"
        by simp
      from mx[rule_format, OF b] have "rmatch r (advance t2' (Some c), s2, g) = []" .
      then show "rmatch r (advance t2 p, s2, g) = []" by (simp add: t2 advance_Cons)
    qed
    show ?thesis
      by (rule exI[of _ "c # t"], rule exI[of _ s'], intro conjI) (fact f1 f2 f3 f4 f5)+
  next
    case False
    have eq: "rmatch (Seq (Star k) r) (p, c # cs, g) = rmatch r (p, c # cs, g)"
    proof (cases "cmem k c")
      case True
      with False have "?inner = []" by simp
      with True show ?thesis by (simp only: rmatch_Seq_Star_Cons if_True append_Nil)
    next
      case False
      then show ?thesis by (simp only: rmatch_Seq_Star_Cons if_False)
    qed
    have f1: "c # cs = [] @ (c # cs)" by simp
    have f2: "\<forall>x \<in> set []. cmem k x" by simp
    from Cons.prems eq have f3: "rmatch r (advance [] p, c # cs, g) \<noteq> []" by simp
    from eq have f4: "hd (rmatch (Seq (Star k) r) (p, c # cs, g))
        = hd (rmatch r (advance [] p, c # cs, g))" by simp
    have f5: "\<forall>t2 s2. c # cs = t2 @ s2 \<and> (\<forall>x \<in> set t2. cmem k x) \<and>
        length ([]::string) < length t2 \<longrightarrow> rmatch r (advance t2 p, s2, g) = []"
    proof (intro allI impI, elim conjE)
      fix t2 s2 assume a: "c # cs = t2 @ s2" "\<forall>x \<in> set t2. cmem k x"
        "length ([]::string) < length t2"
      then obtain t2' where t2: "t2 = c # t2'" by (cases t2) auto
      with a have kc: "cmem k c" and cs: "cs = t2' @ s2" and k2: "\<forall>x \<in> set t2'. cmem k x"
        by simp_all
      from kc False have "?inner = []" by simp
      from rmatch_Seq_Star_empty[OF this cs k2]
      show "rmatch r (advance t2 p, s2, g) = []" by (simp add: t2 advance_Cons)
    qed
    show ?thesis
      by (rule exI[of _ "[]"], rule exI[of _ "c # cs"], intro conjI) (fact f1 f2 f3 f4 f5)+
  qed
qed

text \<open>The first success of a lazy star takes the shortest run after which the rest matches.\<close>

lemma rmatch_Seq_Lazy_hd:
  "rmatch (Seq (Lazy k) r) (p, s, g) \<noteq> [] \<Longrightarrow>
   \<exists>t s'. s = t @ s' \<and> (\<forall>c \<in> set t. cmem k c) \<and> rmatch r (advance t p, s', g) \<noteq> [] \<and>
     hd (rmatch (Seq (Lazy k) r) (p, s, g)) = hd (rmatch r (advance t p, s', g)) \<and>
     (\<forall>t2 s2. s = t2 @ s2 \<and> length t2 < length t \<longrightarrow> rmatch r (advance t2 p, s2, g) = [])"
proof (induction s arbitrary: p)
  case Nil
  have f1: "[] = [] @ ([]::string)" by simp
  have f2: "\<forall>c \<in> set []. cmem k c" by simp
  from Nil have f3: "rmatch r (advance [] p, [], g) \<noteq> []"
    by (simp add: rmatch_Seq_Lazy_Nil)
  have f4: "hd (rmatch (Seq (Lazy k) r) (p, [], g)) = hd (rmatch r (advance [] p, [], g))"
    by (simp add: rmatch_Seq_Lazy_Nil)
  have f5: "\<forall>t2 s2. [] = t2 @ s2 \<and> length t2 < length ([]::string) \<longrightarrow>
        rmatch r (advance t2 p, s2, g) = []" by simp
  show ?case
    by (rule exI[of _ "[]"], rule exI[of _ "[]"], intro conjI) (fact f1 f2 f3 f4 f5)+
next
  case (Cons c cs)
  let ?inner = "rmatch (Seq (Lazy k) r) (Some c, cs, g)"
  show ?case
  proof (cases "rmatch r (p, c # cs, g) = []")
    case False
    have f1: "c # cs = [] @ (c # cs)" by simp
    have f2: "\<forall>x \<in> set []. cmem k x" by simp
    from False have f3: "rmatch r (advance [] p, c # cs, g) \<noteq> []" by simp
    have f4: "hd (rmatch (Seq (Lazy k) r) (p, c # cs, g))
        = hd (rmatch r (advance [] p, c # cs, g))"
    proof (cases "cmem k c")
      case True
      then show ?thesis by (simp only: rmatch_Seq_Lazy_Cons if_True hd_append2[OF False] advance_Nil)
    next
      case False
      then show ?thesis by (simp only: rmatch_Seq_Lazy_Cons if_False advance_Nil)
    qed
    have f5: "\<forall>t2 s2. c # cs = t2 @ s2 \<and> length t2 < length ([]::string) \<longrightarrow>
          rmatch r (advance t2 p, s2, g) = []" by simp
    show ?thesis
      by (rule exI[of _ "[]"], rule exI[of _ "c # cs"], intro conjI) (fact f1 f2 f3 f4 f5)+
  next
    case True
    have kc: "cmem k c"
    proof (rule ccontr)
      assume "\<not> cmem k c"
      then have "rmatch (Seq (Lazy k) r) (p, c # cs, g) = rmatch r (p, c # cs, g)"
        by (simp only: rmatch_Seq_Lazy_Cons if_False)
      with True Cons.prems show False by simp
    qed
    from kc True have eq: "rmatch (Seq (Lazy k) r) (p, c # cs, g) = ?inner"
      by (simp only: rmatch_Seq_Lazy_Cons if_True append_Nil)
    with Cons.prems have ne: "?inner \<noteq> []" by simp
    from Cons.IH[OF ne] obtain t s' where t: "cs = t @ s'" "\<forall>x \<in> set t. cmem k x"
      "rmatch r (advance t (Some c), s', g) \<noteq> []"
      "hd ?inner = hd (rmatch r (advance t (Some c), s', g))"
      and mn: "\<forall>t2 s2. cs = t2 @ s2 \<and> length t2 < length t \<longrightarrow>
        rmatch r (advance t2 (Some c), s2, g) = []" by blast
    have f1: "c # cs = (c # t) @ s'" using t(1) by simp
    have f2: "\<forall>x \<in> set (c # t). cmem k x" using t(2) kc by simp
    have f3: "rmatch r (advance (c # t) p, s', g) \<noteq> []" using t(3) by (simp add: advance_Cons)
    have f4: "hd (rmatch (Seq (Lazy k) r) (p, c # cs, g)) = hd (rmatch r (advance (c # t) p, s', g))"
      using eq t(4) by (simp add: advance_Cons)
    have f5: "\<forall>t2 s2. c # cs = t2 @ s2 \<and> length t2 < length (c # t) \<longrightarrow>
        rmatch r (advance t2 p, s2, g) = []"
    proof (intro allI impI, elim conjE)
      fix t2 s2 assume a: "c # cs = t2 @ s2" "length t2 < length (c # t)"
      show "rmatch r (advance t2 p, s2, g) = []"
      proof (cases t2)
        case Nil
        with a True show ?thesis by simp
      next
        case (Cons x t2')
        with a have b: "cs = t2' @ s2 \<and> length t2' < length t" and x: "x = c" by simp_all
        from mn[rule_format, OF b] Cons x show ?thesis by (simp add: advance_Cons)
      qed
    qed
    show ?thesis
      by (rule exI[of _ "c # t"], rule exI[of _ s'], intro conjI) (fact f1 f2 f3 f4 f5)+
  qed
qed

definition bol :: "char option \<Rightarrow> bool" where
  "bol q = (q = None \<or> q = Some nl)"

definition eol :: "string \<Rightarrow> bool" where
  "eol z = (head z = None \<or> head z = Some nl)"

lemma rmatch_Seq_Bol:
  "rmatch (Seq Bol r) (p, s, g) = (if bol p then rmatch r (p, s, g) else [])"
  by (cases p) (auto simp add: rmatch.simps bol_def)

lemma rmatch_Eol: "rmatch Eol (p, s, g) = (if eol s then [(p, s, g)] else [])"
  by (simp add: rmatch.simps eol_def)

lemma rmatch_Seq_Lit_app:
  "rmatch (Seq (Lit l) r) (p, l @ s, g) = rmatch r (advance l p, s, g)"
  by (simp add: rmatch.simps startswith_iff)

lemma rmatch_Seq_Lit_nonempty:
  assumes "rmatch (Seq (Lit l) r) (p, s, g) \<noteq> []"
  obtains s' where "s = l @ s'" and "rmatch (Seq (Lit l) r) (p, s, g) = rmatch r (advance l p, s', g)"
proof -
  from assms have "startswith s l" by (auto simp: rmatch.simps split: if_splits)
  then obtain s' where s': "s = l @ s'" by (auto simp: startswith_iff)
  with that rmatch_Seq_Lit_app show thesis by blast
qed

lemma rmatch_Seq_Set_nl_nonempty:
  assumes "rmatch (Seq (Set [Ch nl]) r) (p, s, g) \<noteq> []"
  obtains s' where "s = nl # s'"
    and "rmatch (Seq (Set [Ch nl]) r) (p, s, g) = rmatch r (Some nl, s', g)"
proof (cases s)
  case Nil
  with assms show ?thesis by (simp add: rmatch.simps)
next
  case (Cons c cs)
  with assms have "cmem [Ch nl] c" by (auto simp: rmatch.simps split: if_splits)
  then have "c = nl" by (simp add: cmem_def)
  with Cons that show ?thesis by (simp add: rmatch.simps cmem_def)
qed

lemma rmatch_Seq_Set_nl_Cons:
  "rmatch (Seq (Set [Ch nl]) r) (p, nl # s, g) = rmatch r (Some nl, s, g)"
  by (simp add: rmatch.simps cmem_def)

text \<open>
  \<open>settled z\<close>: a line ends at \<open>z\<close>, and no line ends after further white space taken
  from \<open>z\<close>. This is how the text after a match of \<open>\s*$\<close> looks.
\<close>

definition settled :: "string \<Rightarrow> bool" where
  "settled z = (eol z \<and> (\<forall>t s2. z = t @ s2 \<and> t \<noteq> [] \<and> (\<forall>c \<in> set t. isspace c) \<longrightarrow> \<not> eol s2))"

definition tail2 :: re where
  "tail2 = Seq (Star [WS]) Eol"

lemma tail2_hd:
  assumes "rmatch tail2 (p, s, g) \<noteq> []"
  shows "\<exists>t z. s = t @ z \<and> (\<forall>c \<in> set t. isspace c) \<and> settled z \<and>
           hd (rmatch tail2 (p, s, g)) = (advance t p, z, g)"
proof -
  from rmatch_Seq_Star_hd[OF assms[unfolded tail2_def]]
  obtain t z where t: "s = t @ z" "\<forall>c \<in> set t. cmem [WS] c"
    "rmatch Eol (advance t p, z, g) \<noteq> []"
    "hd (rmatch (Seq (Star [WS]) Eol) (p, s, g)) = hd (rmatch Eol (advance t p, z, g))"
    and mx: "\<forall>t2 s2. s = t2 @ s2 \<and> (\<forall>c \<in> set t2. cmem [WS] c) \<and> length t < length t2 \<longrightarrow>
        rmatch Eol (advance t2 p, s2, g) = []" by blast
  from t(3) have ez: "eol z" by (simp add: rmatch_Eol split: if_splits)
  have "\<forall>u s2. z = u @ s2 \<and> u \<noteq> [] \<and> (\<forall>c \<in> set u. isspace c) \<longrightarrow> \<not> eol s2"
  proof (intro allI impI, elim conjE)
    fix u s2 assume a: "z = u @ s2" "u \<noteq> []" "\<forall>c \<in> set u. isspace c"
    from a t(1,2) have b: "s = (t @ u) @ s2 \<and> (\<forall>c \<in> set (t @ u). cmem [WS] c)
        \<and> length t < length (t @ u)" by (auto simp: cmem_def)
    from mx[rule_format, OF b] show "\<not> eol s2" by (simp add: rmatch_Eol split: if_splits)
  qed
  with ez have sz: "settled z" by (simp add: settled_def)
  from t(4) ez have h: "hd (rmatch tail2 (p, s, g)) = (advance t p, z, g)"
    by (simp add: tail2_def rmatch_Eol)
  from t(1,2) have w: "\<forall>c \<in> set t. isspace c" by (simp add: cmem_def)
  show ?thesis
    by (rule exI[of _ t], rule exI[of _ z], intro conjI) (fact t(1) w sz h)+
qed

lemma tail2_at_settled:
  assumes "settled z"
  shows "rmatch tail2 (p, z, g) \<noteq> [] \<and> hd (rmatch tail2 (p, z, g)) = (p, z, g)"
proof -
  from assms have ez: "eol z" by (simp add: settled_def)
  have "(advance [] p, z, g) \<in> set (rmatch (Star [WS]) (p, z, g))"
    by (intro iffD2[OF rmatch_Star_iff]) simp
  moreover from ez have "rmatch Eol (advance [] p, z, g) \<noteq> []" by (simp add: rmatch_Eol)
  ultimately have ne: "rmatch tail2 (p, z, g) \<noteq> []"
    unfolding tail2_def by (intro iffD2[OF rmatch_Seq_nonempty]) blast
  from tail2_hd[OF ne] obtain t z' where t: "z = t @ z'" "\<forall>c \<in> set t. isspace c"
    "settled z'" "hd (rmatch tail2 (p, z, g)) = (advance t p, z', g)" by blast
  have "t = []"
  proof (rule ccontr)
    assume "t \<noteq> []"
    with assms t(1,2) have "\<not> eol z'" by (simp add: settled_def)
    with t(3) show False by (simp add: settled_def)
  qed
  with t ne show ?thesis by simp
qed

definition end_line_re :: "string \<Rightarrow> re" where
  "end_line_re end_line = Seq Bol (Seq (Star [WS]) (Seq (Lit end_line) tail2))"

lemma block_pattern_unfold:
  "block_pattern start_line end_line =
     Seq Bol (Seq (Lit start_line) (Seq (Star [WS]) (Seq (Set [Ch nl])
       (Seq (Lazy [AnyCh]) (end_line_re end_line)))))"
  by (simp add: block_pattern_def end_line_re_def tail2_def)

lemma isspace_nl: "isspace nl"
  by (simp add: isspace_def ord_def in_range_def)

lemma eol_Cons_nl: "eol (nl # s)"
  by (simp add: eol_def head_def)

lemma bol_Some_nl: "bol (Some nl)"
  by (simp add: bol_def)

lemma bol_advance_nl: "bol (advance (t @ [nl]) p)"
  by (simp add: bol_def advance_def)

lemma end_line_nonempty_iff:
  "rmatch (end_line_re el) (q, y, g) \<noteq> [] \<longleftrightarrow>
     bol q \<and> (\<exists>w2 w3 z. y = w2 @ el @ w3 @ z \<and> (\<forall>c \<in> set w2. isspace c) \<and>
                (\<forall>c \<in> set w3. isspace c) \<and> eol z)"
  (is "?L \<longleftrightarrow> ?R")
proof
  assume l: ?L
  then have b: "bol q" and l1: "rmatch (Seq (Star [WS]) (Seq (Lit el) tail2)) (q, y, g) \<noteq> []"
    by (simp_all add: end_line_re_def rmatch_Seq_Bol split: if_splits)
  from iffD1[OF rmatch_Seq_nonempty l1] obtain y1
    where y1: "y1 \<in> set (rmatch (Star [WS]) (q, y, g))"
      and l2: "rmatch (Seq (Lit el) tail2) y1 \<noteq> []" by blast
  from iffD1[OF rmatch_Star_iff y1] obtain w2 s2
    where w2: "y = w2 @ s2" "\<forall>c \<in> set w2. cmem [WS] c" "y1 = (advance w2 q, s2, g)" by blast
  from l2 w2(3) have l2': "rmatch (Seq (Lit el) tail2) (advance w2 q, s2, g) \<noteq> []" by simp
  from rmatch_Seq_Lit_nonempty[OF l2'] obtain s3
    where s3: "s2 = el @ s3"
      and e3: "rmatch (Seq (Lit el) tail2) (advance w2 q, s2, g) = rmatch tail2 (advance el (advance w2 q), s3, g)"
    by blast
  from l2' e3 have l3: "rmatch tail2 (advance el (advance w2 q), s3, g) \<noteq> []" by simp
  from tail2_hd[OF l3] obtain w3 z where w3: "s3 = w3 @ z" "\<forall>c \<in> set w3. isspace c" "settled z"
    by blast
  from w3(3) have ez: "eol z" by (simp add: settled_def)
  from w2(1) s3 w3(1) have yy: "y = w2 @ el @ w3 @ z" by simp
  from w2(2) have ws2: "\<forall>c \<in> set w2. isspace c" by (simp add: cmem_def)
  have "\<exists>w2 w3 z. y = w2 @ el @ w3 @ z \<and> (\<forall>c \<in> set w2. isspace c) \<and>
                (\<forall>c \<in> set w3. isspace c) \<and> eol z"
    by (rule exI[of _ w2], rule exI[of _ w3], rule exI[of _ z], intro conjI)
       (fact yy ws2 w3(2) ez)+
  with b show ?R by simp
next
  assume r: ?R
  then have b: "bol q" by simp
  from r obtain w2 w3 z where yy: "y = w2 @ el @ w3 @ z" and ws2: "\<forall>c \<in> set w2. isspace c"
    and ws3: "\<forall>c \<in> set w3. isspace c" and ez: "eol z" by blast
  let ?p3 = "advance el (advance w2 q)"
  have m3: "(advance w3 ?p3, z, g) \<in> set (rmatch (Star [WS]) (?p3, w3 @ z, g))"
    using ws3 by (intro iffD2[OF rmatch_Star_iff]) (auto simp: cmem_def)
  from ez have "rmatch Eol (advance w3 ?p3, z, g) \<noteq> []" by (simp add: rmatch_Eol)
  with m3 have t2: "rmatch tail2 (?p3, w3 @ z, g) \<noteq> []"
    unfolding tail2_def by (intro iffD2[OF rmatch_Seq_nonempty]) blast
  then have l2: "rmatch (Seq (Lit el) tail2) (advance w2 q, el @ w3 @ z, g) \<noteq> []"
    by (simp add: rmatch_Seq_Lit_app)
  have m1: "(advance w2 q, el @ w3 @ z, g) \<in> set (rmatch (Star [WS]) (q, y, g))"
    using ws2 yy by (intro iffD2[OF rmatch_Star_iff]) (auto simp: cmem_def)
  from m1 l2 have "rmatch (Seq (Star [WS]) (Seq (Lit el) tail2)) (q, y, g) \<noteq> []"
    by (intro iffD2[OF rmatch_Seq_nonempty]) blast
  with b show ?L by (simp add: end_line_re_def rmatch_Seq_Bol)
qed

lemma cmem_AnyCh: "cmem [AnyCh] c"
  by (simp add: cmem_def)

lemma block_pattern_nonempty_iff:
  "rmatch (block_pattern sl el) (q, s, g) \<noteq> [] \<longleftrightarrow>
     bol q \<and> (\<exists>w x y. s = sl @ w @ [nl] @ x @ y \<and> (\<forall>c \<in> set w. isspace c) \<and>
                rmatch (end_line_re el) (advance x (Some nl), y, g) \<noteq> [])"
  (is "?L \<longleftrightarrow> ?R")
proof
  let ?P4 = "Seq (Lazy [AnyCh]) (end_line_re el)"
  let ?P3 = "Seq (Set [Ch nl]) ?P4"
  let ?P2 = "Seq (Star [WS]) ?P3"
  let ?P1 = "Seq (Lit sl) ?P2"
  assume l: ?L
  then have b: "bol q" and l1: "rmatch ?P1 (q, s, g) \<noteq> []"
    by (simp_all add: block_pattern_unfold rmatch_Seq_Bol split: if_splits)
  from rmatch_Seq_Lit_nonempty[OF l1] obtain s1 where s1: "s = sl @ s1"
    and e1: "rmatch ?P1 (q, s, g) = rmatch ?P2 (advance sl q, s1, g)" by blast
  from l1 e1 have l2: "rmatch ?P2 (advance sl q, s1, g) \<noteq> []" by simp
  from iffD1[OF rmatch_Seq_nonempty l2] obtain y1
    where y1: "y1 \<in> set (rmatch (Star [WS]) (advance sl q, s1, g))"
      and l3: "rmatch ?P3 y1 \<noteq> []" by blast
  from iffD1[OF rmatch_Star_iff y1] obtain w s2
    where w: "s1 = w @ s2" "\<forall>c \<in> set w. cmem [WS] c" "y1 = (advance w (advance sl q), s2, g)"
    by blast
  from l3 w(3) have l3': "rmatch ?P3 (advance w (advance sl q), s2, g) \<noteq> []" by simp
  from rmatch_Seq_Set_nl_nonempty[OF l3'] obtain u where u: "s2 = nl # u"
    and e3: "rmatch ?P3 (advance w (advance sl q), s2, g) = rmatch ?P4 (Some nl, u, g)" by blast
  from l3' e3 have l4: "rmatch ?P4 (Some nl, u, g) \<noteq> []" by simp
  from iffD1[OF rmatch_Seq_nonempty l4] obtain y4
    where y4: "y4 \<in> set (rmatch (Lazy [AnyCh]) (Some nl, u, g))"
      and l5: "rmatch (end_line_re el) y4 \<noteq> []" by blast
  from y4 have "y4 \<in> set (rmatch (Star [AnyCh]) (Some nl, u, g))" by (simp add: rmatch_Lazy_set)
  from iffD1[OF rmatch_Star_iff this] obtain x y
    where x: "u = x @ y" "y4 = (advance x (Some nl), y, g)" by blast
  from l5 x(2) have l5': "rmatch (end_line_re el) (advance x (Some nl), y, g) \<noteq> []" by simp
  from s1 w(1) u x(1) have ss: "s = sl @ w @ [nl] @ x @ y" by simp
  from w(2) have wsw: "\<forall>c \<in> set w. isspace c" by (simp add: cmem_def)
  have "\<exists>w x y. s = sl @ w @ [nl] @ x @ y \<and> (\<forall>c \<in> set w. isspace c) \<and>
                rmatch (end_line_re el) (advance x (Some nl), y, g) \<noteq> []"
    by (rule exI[of _ w], rule exI[of _ x], rule exI[of _ y], intro conjI) (fact ss wsw l5')+
  with b show ?R by simp
next
  let ?P4 = "Seq (Lazy [AnyCh]) (end_line_re el)"
  let ?P3 = "Seq (Set [Ch nl]) ?P4"
  let ?P2 = "Seq (Star [WS]) ?P3"
  let ?P1 = "Seq (Lit sl) ?P2"
  assume r: ?R
  then have b: "bol q" by simp
  from r obtain w x y where ss: "s = sl @ w @ [nl] @ x @ y" and wsw: "\<forall>c \<in> set w. isspace c"
    and l5: "rmatch (end_line_re el) (advance x (Some nl), y, g) \<noteq> []" by blast
  have "(advance x (Some nl), y, g) \<in> set (rmatch (Star [AnyCh]) (Some nl, x @ y, g))"
    by (intro iffD2[OF rmatch_Star_iff]) (auto simp: cmem_AnyCh)
  then have m4: "(advance x (Some nl), y, g) \<in> set (rmatch (Lazy [AnyCh]) (Some nl, x @ y, g))"
    by (simp add: rmatch_Lazy_set)
  from m4 l5 have l4: "rmatch ?P4 (Some nl, x @ y, g) \<noteq> []"
    by (intro iffD2[OF rmatch_Seq_nonempty]) blast
  then have l3: "rmatch ?P3 (advance w (advance sl q), nl # x @ y, g) \<noteq> []"
    by (simp add: rmatch_Seq_Set_nl_Cons)
  have m2: "(advance w (advance sl q), nl # x @ y, g)
              \<in> set (rmatch (Star [WS]) (advance sl q, w @ nl # x @ y, g))"
    using wsw by (intro iffD2[OF rmatch_Star_iff]) (auto simp: cmem_def)
  from m2 l3 have l2: "rmatch ?P2 (advance sl q, w @ nl # x @ y, g) \<noteq> []"
    by (intro iffD2[OF rmatch_Seq_nonempty]) blast
  then have "rmatch ?P1 (q, sl @ w @ nl # x @ y, g) \<noteq> []"
    by (simp add: rmatch_Seq_Lit_app)
  with b ss show ?L by (simp add: block_pattern_unfold rmatch_Seq_Bol)
qed

lemma block_pattern_hd_settled:
  assumes ne: "rmatch (block_pattern sl el) st \<noteq> []"
  shows "settled (fst (snd (hd (rmatch (block_pattern sl el) st))))"
proof -
  let ?T3 = "Seq (Lit el) tail2"
  let ?T2 = "Seq (Star [WS]) ?T3"
  let ?T1 = "Seq Bol ?T2"
  let ?P4 = "Seq (Lazy [AnyCh]) ?T1"
  let ?P3 = "Seq (Set [Ch nl]) ?P4"
  let ?P2 = "Seq (Star [WS]) ?P3"
  let ?P1 = "Seq (Lit sl) ?P2"
  let ?P = "Seq Bol ?P1"
  have P: "block_pattern sl el = ?P" by (simp add: block_pattern_unfold end_line_re_def)
  from ne P have n0: "rmatch ?P st \<noteq> []" by simp
  from rmatch_Seq_hd[OF n0] obtain y1 where n1: "rmatch ?P1 y1 \<noteq> []"
    and h1: "hd (rmatch ?P st) = hd (rmatch ?P1 y1)" by blast
  from rmatch_Seq_hd[OF n1] obtain y2 where n2: "rmatch ?P2 y2 \<noteq> []"
    and h2: "hd (rmatch ?P1 y1) = hd (rmatch ?P2 y2)" by blast
  from rmatch_Seq_hd[OF n2] obtain y3 where n3: "rmatch ?P3 y3 \<noteq> []"
    and h3: "hd (rmatch ?P2 y2) = hd (rmatch ?P3 y3)" by blast
  from rmatch_Seq_hd[OF n3] obtain y4 where n4: "rmatch ?P4 y4 \<noteq> []"
    and h4: "hd (rmatch ?P3 y3) = hd (rmatch ?P4 y4)" by blast
  from rmatch_Seq_hd[OF n4] obtain y5 where n5: "rmatch ?T1 y5 \<noteq> []"
    and h5: "hd (rmatch ?P4 y4) = hd (rmatch ?T1 y5)" by blast
  from rmatch_Seq_hd[OF n5] obtain y6 where n6: "rmatch ?T2 y6 \<noteq> []"
    and h6: "hd (rmatch ?T1 y5) = hd (rmatch ?T2 y6)" by blast
  from rmatch_Seq_hd[OF n6] obtain y7 where n7: "rmatch ?T3 y7 \<noteq> []"
    and h7: "hd (rmatch ?T2 y6) = hd (rmatch ?T3 y7)" by blast
  from rmatch_Seq_hd[OF n7] obtain y8 where n8: "rmatch tail2 y8 \<noteq> []"
    and h8: "hd (rmatch ?T3 y7) = hd (rmatch tail2 y8)" by blast
  obtain p s g where y8: "y8 = (p, s, g)" by (cases y8)
  from n8 y8 have "rmatch tail2 (p, s, g) \<noteq> []" by simp
  from tail2_hd[OF this] obtain t z where "settled z"
    "hd (rmatch tail2 (p, s, g)) = (advance t p, z, g)" by blast
  with y8 h8 h7 h6 h5 h4 h3 h2 h1 P show ?thesis by simp
qed

text \<open>
  A match that starts inside the text before a block, and reaches the block's start
  line, can be rerouted to the block's own end line.
\<close>

lemma match_before_block:
  assumes orig: "rmatch (block_pattern sl el) (advance (a @ c) p0, blk, []) \<noteq> []"
    and c: "c \<noteq> []"
    and nlsl: "nl \<notin> set sl"
    and new: "rmatch (block_pattern sl el) (advance a p0, c @ X, []) \<noteq> []"
  shows "rmatch (block_pattern sl el) (advance a p0, c @ blk, []) \<noteq> []"
proof -
  from iffD1[OF block_pattern_nonempty_iff orig]
  have b0: "bol (advance (a @ c) p0)" and
    "\<exists>w x y. blk = sl @ w @ [nl] @ x @ y \<and> (\<forall>c \<in> set w. isspace c) \<and>
       rmatch (end_line_re el) (advance x (Some nl), y, []) \<noteq> []" by simp_all
  then obtain w0 x0 y0 where blk: "blk = sl @ w0 @ [nl] @ x0 @ y0"
    and e0: "rmatch (end_line_re el) (advance x0 (Some nl), y0, []) \<noteq> []" by blast
  from b0 c have lc: "last c = nl" by (simp add: bol_def advance_def)
  from iffD1[OF block_pattern_nonempty_iff new]
  have b1: "bol (advance a p0)" and
    "\<exists>w x y. c @ X = sl @ w @ [nl] @ x @ y \<and> (\<forall>c \<in> set w. isspace c) \<and>
       rmatch (end_line_re el) (advance x (Some nl), y, []) \<noteq> []" by simp_all
  then obtain w x y where cx: "c @ X = (sl @ w @ [nl]) @ x @ y"
    and wsw: "\<forall>c \<in> set w. isspace c" by auto
  have "\<exists>w' k. c = sl @ w' @ [nl] @ k \<and> (\<forall>c \<in> set w'. isspace c)"
  proof -
    from iffD1[OF append_eq_append_conv2 cx] obtain k
      where k: "c = (sl @ w @ [nl]) @ k \<or> c @ k = sl @ w @ [nl]" by blast
    then show ?thesis
    proof
      assume "c = (sl @ w @ [nl]) @ k"
      with wsw show ?thesis by auto
    next
      assume ck: "c @ k = sl @ w @ [nl]"
      then have ck': "c @ k = sl @ (w @ [nl])" by simp
      from iffD1[OF append_eq_append_conv2 ck'] obtain j
        where j: "(c = sl @ j \<and> j @ k = w @ [nl]) \<or> (c @ j = sl \<and> k = j @ w @ [nl])" by blast
      then show ?thesis
      proof
        assume "c @ j = sl \<and> k = j @ w @ [nl]"
        then have "set c \<subseteq> set sl" by auto
        with c lc nlsl show ?thesis using last_in_set[of c] by auto
      next
        assume cj: "c = sl @ j \<and> j @ k = w @ [nl]"
        have jne: "j \<noteq> []"
        proof
          assume "j = []"
          with cj c lc nlsl show False using last_in_set[of c] by auto
        qed
        with cj lc have lj: "last j = nl" by simp
        from cj have "set j \<subseteq> set (w @ [nl])" by (metis set_append Un_upper1)
        with wsw isspace_nl have wsj: "\<forall>c \<in> set j. isspace c" by auto
        from jne lj have jj: "j = butlast j @ [nl]" by (metis append_butlast_last_id)
        from wsj have wsb: "\<forall>c \<in> set (butlast j). isspace c" by (meson in_set_butlastD)
        from cj jj have c1: "c = sl @ butlast j @ [nl] @ []" by simp
        show ?thesis
          by (rule exI[of _ "butlast j"], rule exI[of _ "[]"], intro conjI) (fact c1 wsb)+
      qed
    qed
  qed
  then obtain w' k where ck: "c = sl @ w' @ [nl] @ k" and wsw': "\<forall>c \<in> set w'. isspace c"
    by blast
  let ?x = "(k @ sl @ w0) @ [nl] @ x0"
  have adv: "advance ?x (Some nl) = advance x0 (Some nl)"
    by (simp only: advance_append) (simp add: advance_def)
  from ck blk have s: "c @ blk = sl @ w' @ [nl] @ ?x @ y0" by simp
  from e0 adv have e: "rmatch (end_line_re el) (advance ?x (Some nl), y0, []) \<noteq> []" by simp
  have "\<exists>w x y. c @ blk = sl @ w @ [nl] @ x @ y \<and> (\<forall>c \<in> set w. isspace c) \<and>
       rmatch (end_line_re el) (advance x (Some nl), y, []) \<noteq> []"
    by (rule exI[of _ w'], rule exI[of _ ?x], rule exI[of _ y0], intro conjI) (fact s wsw' e)+
  with b1 show ?thesis by (intro iffD2[OF block_pattern_nonempty_iff]) simp
qed

lemma not_isspace_percent: "\<not> isspace (CHR ''%'')"
  by (simp add: isspace_def ord_def in_range_def)

text \<open>
  The end line occurs once in the text that \<open>repl\<close> builds, when the replacement does
  not contain it.
\<close>

lemma end_line_not_inside:
  assumes el: "el = CHR ''%'' # e" and nlel: "nl \<notin> set el"
    and nc: "\<not> contains rr el"
    and H: "[nl, nl] @ rr @ [nl, nl] = A @ us" and us: "us \<noteq> []"
    and eq: "us @ el @ post = el @ B"
  shows False
proof -
  from us eq el have hu: "hd us = CHR ''%''" by (cases us) auto
  have nlp: "nl \<noteq> CHR ''%''" by simp
  from H have H': "A @ us = ([nl, nl] @ rr) @ [nl, nl]" by simp
  from iffD1[OF append_eq_append_conv2 H'] obtain v
    where v: "(A = ([nl, nl] @ rr) @ v \<and> v @ us = [nl, nl]) \<or>
              (A @ v = [nl, nl] @ rr \<and> us = v @ [nl, nl])" by blast
  then show False
  proof
    assume "A = ([nl, nl] @ rr) @ v \<and> v @ us = [nl, nl]"
    then have "set us \<subseteq> set [nl, nl]" by (metis Un_upper2 set_append)
    with us have "hd us = nl" by (cases us) auto
    with hu nlp show False by simp
  next
    assume a: "A @ v = [nl, nl] @ rr \<and> us = v @ [nl, nl]"
    have "\<exists>rp. rr = rp @ v \<and> v \<noteq> []"
    proof -
      from a have a1: "A @ v = [nl, nl] @ rr" by simp
      from iffD1[OF append_eq_append_conv2 a1] obtain u
        where u: "(A = [nl, nl] @ u \<and> u @ v = rr) \<or> (A @ u = [nl, nl] \<and> v = u @ rr)" by blast
      have vne: "v \<noteq> []"
      proof
        assume "v = []"
        with a hu nlp show False by simp
      qed
      from u show ?thesis
      proof
        assume "A = [nl, nl] @ u \<and> u @ v = rr"
        with vne show ?thesis by auto
      next
        assume b: "A @ u = [nl, nl] \<and> v = u @ rr"
        show ?thesis
        proof (cases "u = []")
          case True
          with b vne show ?thesis by auto
        next
          case False
          from b have "set u \<subseteq> set [nl, nl]" by (metis Un_upper2 set_append)
          with False have "hd u = nl" by (cases u) auto
          with False b a have "hd us = nl" by (cases u) auto
          with hu nlp show ?thesis by simp
        qed
      qed
    qed
    then obtain rp where rp: "rr = rp @ v" and vne: "v \<noteq> []" by blast
    from eq a have eq': "v @ ([nl, nl] @ el @ post) = el @ B" by simp
    from iffD1[OF append_eq_append_conv2 eq'] obtain k
      where k: "(v = el @ k \<and> k @ [nl, nl] @ el @ post = B) \<or>
                (v @ k = el \<and> [nl, nl] @ el @ post = k @ B)" by blast
    then show False
    proof
      assume "v = el @ k \<and> k @ [nl, nl] @ el @ post = B"
      with rp have "rr = rp @ el @ k" by simp
      then have "contains rr el" unfolding contains_iff by blast
      with nc show False by simp
    next
      assume c: "v @ k = el \<and> [nl, nl] @ el @ post = k @ B"
      show False
      proof (cases "k = []")
        case True
        with c rp have "rr = rp @ el @ []" by simp
        then have "contains rr el" unfolding contains_iff by blast
        with nc show False by simp
      next
        case False
        with c have "hd k = nl" by (cases k) auto
        with False have "nl \<in> set k" by (cases k) auto
        with c have "nl \<in> set el" by (metis Un_iff set_append)
        with nlel show False by simp
      qed
    qed
  qed
qed

lemma end_line_position:
  assumes el: "el = CHR ''%'' # e" and nlel: "nl \<notin> set el"
    and nc: "\<not> contains rr el"
    and eq: "([nl, nl] @ rr @ [nl, nl]) @ el @ post = (A0 @ w2) @ el @ B"
    and le: "length A0 \<le> length ([nl, nl] @ rr @ [nl, nl])"
    and ws: "\<forall>c \<in> set w2. isspace c"
  shows "B = post"
proof -
  let ?H = "[nl, nl] @ rr @ [nl, nl]"
  from iffD1[OF append_eq_append_conv2 eq] obtain us
    where us: "(?H = (A0 @ w2) @ us \<and> us @ el @ post = el @ B) \<or>
               (?H @ us = A0 @ w2 \<and> el @ post = us @ el @ B)" by blast
  then show ?thesis
  proof
    assume a: "?H = (A0 @ w2) @ us \<and> us @ el @ post = el @ B"
    show ?thesis
    proof (cases "us = []")
      case True
      with a show ?thesis by simp
    next
      case False
      from a have h: "[nl, nl] @ rr @ [nl, nl] = (A0 @ w2) @ us" and e: "us @ el @ post = el @ B"
        by simp_all
      from end_line_not_inside[OF el nlel nc h False e] show ?thesis ..
    qed
  next
    assume a: "?H @ us = A0 @ w2 \<and> el @ post = us @ el @ B"
    show ?thesis
    proof (cases "us = []")
      case True
      with a show ?thesis by simp
    next
      case False
      with a el have hu: "hd us = CHR ''%''" by (cases us) auto
      from a have a1: "?H @ us = A0 @ w2" by simp
      from iffD1[OF append_eq_append_conv2 a1] obtain v
        where v: "(?H = A0 @ v \<and> v @ us = w2) \<or> (?H @ v = A0 \<and> us = v @ w2)" by blast
      have "set us \<subseteq> set w2"
      proof -
        from v show ?thesis
        proof
          assume "?H = A0 @ v \<and> v @ us = w2"
          then show ?thesis by auto
        next
          assume b: "?H @ v = A0 \<and> us = v @ w2"
          then have "length A0 = length ?H + length v" by (metis length_append)
          with le have "v = []" by simp
          with b show ?thesis by simp
        qed
      qed
      with False have "hd us \<in> set w2" by (cases us) auto
      with ws hu not_isspace_percent show ?thesis by auto
    qed
  qed
qed

text \<open>
  The first match of the block pattern at the start line that \<open>repl\<close> wrote ends where
  the replaced block ended.
\<close>

lemma new_block_match:
  assumes bq: "bol q" and sp: "settled post"
    and el: "el = CHR ''%'' # e" and nlel: "nl \<notin> set el"
    and nc: "\<not> contains rr el"
  shows "rmatch (block_pattern sl el) (q, sl @ ([nl, nl] @ rr @ [nl, nl]) @ el @ post, []) \<noteq> [] \<and>
     (\<exists>p'. hd (rmatch (block_pattern sl el) (q, sl @ ([nl, nl] @ rr @ [nl, nl]) @ el @ post, []))
              = (p', post, []))"
proof -
  let ?H = "[nl, nl] @ rr @ [nl, nl]"
  let ?s1 = "?H @ el @ post"
  let ?T3 = "Seq (Lit el) tail2"
  let ?T2 = "Seq (Star [WS]) ?T3"
  let ?P4 = "Seq (Lazy [AnyCh]) (end_line_re el)"
  let ?P3 = "Seq (Set [Ch nl]) ?P4"
  let ?P2 = "Seq (Star [WS]) ?P3"
  from sp have ep: "eol post" by (simp add: settled_def)
  have endm: "rmatch (end_line_re el) (Some nl, el @ post, g) \<noteq> []" for g
  proof -
    have "\<exists>w2 w3 z. el @ post = w2 @ el @ w3 @ z \<and> (\<forall>c \<in> set w2. isspace c) \<and>
                (\<forall>c \<in> set w3. isspace c) \<and> eol z"
      by (rule exI[of _ "[]"], rule exI[of _ "[]"], rule exI[of _ post]) (simp add: ep)
    with bol_Some_nl show ?thesis by (intro iffD2[OF end_line_nonempty_iff]) simp
  qed
  have ne: "rmatch (block_pattern sl el) (q, sl @ ?s1, []) \<noteq> []"
  proof -
    have a: "advance (rr @ [nl, nl]) (Some nl) = Some nl" by (simp add: advance_def)
    have s: "sl @ ?s1 = sl @ [nl] @ [nl] @ (rr @ [nl, nl]) @ (el @ post)" by simp
    have w: "\<forall>c \<in> set [nl]. isspace c" by (simp add: isspace_nl)
    from endm a have e: "rmatch (end_line_re el) (advance (rr @ [nl, nl]) (Some nl), el @ post, []) \<noteq> []"
      by simp
    have "\<exists>w x y. sl @ ?s1 = sl @ w @ [nl] @ x @ y \<and> (\<forall>c \<in> set w. isspace c) \<and>
                rmatch (end_line_re el) (advance x (Some nl), y, []) \<noteq> []"
      by (rule exI[of _ "[nl]"], rule exI[of _ "rr @ [nl, nl]"], rule exI[of _ "el @ post"],
          intro conjI) (fact s w e)+
    with bq show ?thesis by (intro iffD2[OF block_pattern_nonempty_iff]) simp
  qed
  have e0: "rmatch (block_pattern sl el) (q, sl @ ?s1, []) = rmatch ?P2 (advance sl q, ?s1, [])"
    using bq by (simp only: block_pattern_unfold rmatch_Seq_Bol rmatch_Seq_Lit_app if_True)
  from ne e0 have n2: "rmatch ?P2 (advance sl q, ?s1, []) \<noteq> []" by simp
  from rmatch_Seq_hd[OF n2] obtain y1
    where y1: "y1 \<in> set (rmatch (Star [WS]) (advance sl q, ?s1, []))"
      and n3: "rmatch ?P3 y1 \<noteq> []"
      and h3: "hd (rmatch ?P2 (advance sl q, ?s1, [])) = hd (rmatch ?P3 y1)" by blast
  from iffD1[OF rmatch_Star_iff y1] obtain w s2
    where w: "?s1 = w @ s2" "\<forall>c \<in> set w. cmem [WS] c" "y1 = (advance w (advance sl q), s2, [])"
    by blast
  from w(2) have wsw: "\<forall>c \<in> set w. isspace c" by (simp add: cmem_def)
  from n3 w(3) have n3': "rmatch ?P3 (advance w (advance sl q), s2, []) \<noteq> []" by simp
  from rmatch_Seq_Set_nl_nonempty[OF n3'] obtain u where u: "s2 = nl # u"
    and e3: "rmatch ?P3 (advance w (advance sl q), s2, []) = rmatch ?P4 (Some nl, u, [])" by blast
  from n3' e3 have n4: "rmatch ?P4 (Some nl, u, []) \<noteq> []" by simp
  from rmatch_Seq_Lazy_hd[OF n4] obtain x y where x: "u = x @ y"
    and n5: "rmatch (end_line_re el) (advance x (Some nl), y, []) \<noteq> []"
    and h5: "hd (rmatch ?P4 (Some nl, u, [])) = hd (rmatch (end_line_re el) (advance x (Some nl), y, []))"
    and mn: "\<forall>t2 s2. u = t2 @ s2 \<and> length t2 < length x \<longrightarrow>
               rmatch (end_line_re el) (advance t2 (Some nl), s2, []) = []" by blast
  from w(1) u have s1: "?H @ (el @ post) = (w @ [nl]) @ u" by simp
  have "\<exists>xf. ?H = (w @ [nl]) @ xf \<and> u = xf @ el @ post"
  proof -
    from iffD1[OF append_eq_append_conv2 s1] obtain k
      where k: "(?H = (w @ [nl]) @ k \<and> k @ el @ post = u) \<or>
                (?H @ k = w @ [nl] \<and> el @ post = k @ u)" by blast
    then show ?thesis
    proof
      assume "?H = (w @ [nl]) @ k \<and> k @ el @ post = u"
      then show ?thesis by blast
    next
      assume a: "?H @ k = w @ [nl] \<and> el @ post = k @ u"
      have "k = []"
      proof (rule ccontr)
        assume kne: "k \<noteq> []"
        with a el have "hd k = CHR ''%''" by (cases k) auto
        with kne have "CHR ''%'' \<in> set k" by (cases k) auto
        moreover from a have "set k \<subseteq> set (w @ [nl])" by (metis Un_upper2 set_append)
        ultimately have "CHR ''%'' \<in> set (w @ [nl])" by blast
        with wsw isspace_nl have "isspace (CHR ''%'')" by auto
        with not_isspace_percent show False by simp
      qed
      with a have "?H = (w @ [nl]) @ [] \<and> u = [] @ el @ post" by simp
      then show ?thesis by blast
    qed
  qed
  then obtain xf where xf: "?H = (w @ [nl]) @ xf" and uf: "u = xf @ el @ post" by blast
  have "advance xf (Some nl) = Some nl"
  proof (cases "xf = []")
    case True
    then show ?thesis by simp
  next
    case False
    with xf have "last xf = last ?H" by (metis last_appendR)
    with False show ?thesis by (simp add: advance_def)
  qed
  with endm have "rmatch (end_line_re el) (advance xf (Some nl), el @ post, []) \<noteq> []" by simp
  with mn uf have "\<not> length xf < length x" by blast
  with xf have le: "length (w @ [nl] @ x) \<le> length ?H"
    by (metis append_assoc length_append add_le_cancel_left not_le_imp_less)
  from n5 have bx: "bol (advance x (Some nl))"
    by (simp add: end_line_re_def rmatch_Seq_Bol split: if_splits)
  then have e5: "rmatch (end_line_re el) (advance x (Some nl), y, []) = rmatch ?T2 (advance x (Some nl), y, [])"
    by (simp add: end_line_re_def rmatch_Seq_Bol)
  from n5 e5 have n6: "rmatch ?T2 (advance x (Some nl), y, []) \<noteq> []" by simp
  from rmatch_Seq_hd[OF n6] obtain y6
    where y6: "y6 \<in> set (rmatch (Star [WS]) (advance x (Some nl), y, []))"
      and n7: "rmatch ?T3 y6 \<noteq> []"
      and h7: "hd (rmatch ?T2 (advance x (Some nl), y, [])) = hd (rmatch ?T3 y6)" by blast
  from iffD1[OF rmatch_Star_iff y6] obtain w2 s3
    where w2: "y = w2 @ s3" "\<forall>c \<in> set w2. cmem [WS] c"
      "y6 = (advance w2 (advance x (Some nl)), s3, [])" by blast
  from w2(2) have wsw2: "\<forall>c \<in> set w2. isspace c" by (simp add: cmem_def)
  from n7 w2(3) have n7': "rmatch ?T3 (advance w2 (advance x (Some nl)), s3, []) \<noteq> []" by simp
  from rmatch_Seq_Lit_nonempty[OF n7'] obtain s4 where s4: "s3 = el @ s4"
    and e7: "rmatch ?T3 (advance w2 (advance x (Some nl)), s3, [])
               = rmatch tail2 (advance el (advance w2 (advance x (Some nl))), s4, [])" by blast
  from s1 x w2(1) s4 have eq: "?H @ el @ post = ((w @ [nl] @ x) @ w2) @ el @ s4" by simp
  from end_line_position[OF el nlel nc eq le wsw2] have s4p: "s4 = post" .
  from tail2_at_settled[OF sp]
  have h8: "hd (rmatch tail2 (advance el (advance w2 (advance x (Some nl))), post, []))
              = (advance el (advance w2 (advance x (Some nl))), post, [])" by blast
  from e0 h3 w(3) e3 h5 e5 h7 w2(3) e7 s4p h8
  have "hd (rmatch (block_pattern sl el) (q, sl @ ?s1, []))
          = (advance el (advance w2 (advance x (Some nl))), post, [])" by simp
  with ne show ?thesis by blast
qed

lemma rstrip_prefix: "\<exists>t. s = rstrip s @ t"
proof -
  have "rev (takeWhile isspace (rev s) @ dropWhile isspace (rev s)) = rev (rev s)"
    by (simp only: takeWhile_dropWhile_id)
  then have "rev (dropWhile isspace (rev s)) @ rev (takeWhile isspace (rev s)) = s"
    by (simp only: rev_append rev_rev_ident)
  then have "s = rstrip s @ rev (takeWhile isspace (rev s))"
    by (simp only: rstrip_def)
  then show ?thesis ..
qed

lemma contains_rstrip: "contains (rstrip s) t \<Longrightarrow> contains s t"
proof -
  assume "contains (rstrip s) t"
  then obtain a b where ab: "rstrip s = a @ t @ b" unfolding contains_iff by blast
  from rstrip_prefix obtain u where "s = rstrip s @ u" ..
  with ab have "s = a @ t @ (b @ u)" by simp
  then show "contains s t" unfolding contains_iff by blast
qed

lemma replace_block_search:
  "replace_block text start_marker end_marker replacement =
     (case search (block_pattern (start_of start_marker) (end_of end_marker)) text of
        None \<Rightarrow> Inl (RuntimeError (''Expected exactly 1 replace for markers '' @
                  start_of start_marker @ ''..'' @ end_of end_marker @ '', got '' @ str_nat 0))
      | Some m \<Rightarrow> Inr (m_before m @
          repl (start_of start_marker) (end_of end_marker) replacement @ m_after m))"
  by (simp add: replace_block_def subn1_def Let_def split: option.split)

lemma splice_fixed_point_aux:
  assumes nlsl: "nl \<notin> set sl"
    and el: "el = CHR ''%'' # e" and nlel: "nl \<notin> set el"
    and nc: "\<not> contains rr el"
    and m: "search (block_pattern sl el) text = Some m"
  shows "\<exists>m'. search (block_pattern sl el)
                 (m_before m @ (sl @ ([nl, nl] @ rr @ [nl, nl]) @ el) @ m_after m) = Some m' \<and>
              m_before m' = m_before m \<and> m_after m' = m_after m"
proof -
  define P where "P = block_pattern sl el"
  define pre where "pre = m_before m"
  define post where "post = m_after m"
  define R where "R = sl @ ([nl, nl] @ rr @ [nl, nl]) @ el"
  define out where "out = pre @ R @ post"
  from m have m0: "search_from P False None text = Some m" by (simp add: search_def P_def)
  from search_from_Some_conj[OF m0]
  have tx: "text = pre @ m_text m @ post"
    and ne0: "rmatch P (advance pre None, m_text m @ post, []) \<noteq> []"
    and hd0: "(m_prev m, post, m_groups m) = hd (rmatch P (advance pre None, m_text m @ post, []))"
    and lm: "\<forall>a b. text = a @ b \<and> length a < length pre \<longrightarrow> rmatch P (advance a None, b, []) = []"
    unfolding pre_def post_def by blast+
  from block_pattern_hd_settled[OF ne0[unfolded P_def]] hd0[symmetric]
  have sp: "settled post" by (simp add: P_def)
  from iffD1[OF block_pattern_nonempty_iff ne0[unfolded P_def]]
  have bq: "bol (advance pre None)" by simp
  from new_block_match[OF bq sp el nlel nc, of sl] obtain p'
    where ne1: "rmatch P (advance pre None, R @ post, []) \<noteq> []"
      and hd1: "hd (rmatch P (advance pre None, R @ post, [])) = (p', post, [])"
    unfolding P_def R_def by auto
  have "search_from P False None out \<noteq> None"
  proof
    assume "search_from P False None out = None"
    from iffD1[OF search_from_None_iff this] have "rmatch P (advance pre None, R @ post, []) = []"
      by (simp add: out_def)
    with ne1 show False by simp
  qed
  then obtain m' where m': "search_from P False None out = Some m'" by blast
  define pre' where "pre' = m_before m'"
  define post' where "post' = m_after m'"
  from search_from_Some_conj[OF m']
  have ox: "out = pre' @ m_text m' @ post'"
    and ne': "rmatch P (advance pre' None, m_text m' @ post', []) \<noteq> []"
    and hd': "(m_prev m', post', m_groups m') = hd (rmatch P (advance pre' None, m_text m' @ post', []))"
    and lm': "\<forall>a b. out = a @ b \<and> length a < length pre' \<longrightarrow> rmatch P (advance a None, b, []) = []"
    unfolding pre'_def post'_def by blast+
  have n1: "\<not> length pre < length pre'"
  proof
    assume "length pre < length pre'"
    with lm' out_def have "rmatch P (advance pre None, R @ post, []) = []" by blast
    with ne1 show False by simp
  qed
  have n2: "\<not> length pre' < length pre"
  proof
    assume lt: "length pre' < length pre"
    from ox out_def have eq: "pre @ (R @ post) = pre' @ (m_text m' @ post')" by simp
    from iffD1[OF append_eq_append_conv2 eq] obtain c
      where "(pre = pre' @ c \<and> c @ R @ post = m_text m' @ post') \<or>
             (pre @ c = pre' \<and> R @ post = c @ m_text m' @ post')" by blast
    with lt have c: "pre = pre' @ c" "c @ R @ post = m_text m' @ post'" by auto
    from c(1) lt have cne: "c \<noteq> []" by auto
    from ne0 c(1) have orig: "rmatch (block_pattern sl el) (advance (pre' @ c) None, m_text m @ post, []) \<noteq> []"
      by (simp add: P_def)
    from ne' c(2) have new: "rmatch (block_pattern sl el) (advance pre' None, c @ R @ post, []) \<noteq> []"
      by (simp add: P_def)
    from match_before_block[OF orig cne nlsl new]
    have "rmatch P (advance pre' None, c @ m_text m @ post, []) \<noteq> []" by (simp add: P_def)
    moreover from tx c(1) have "text = pre' @ (c @ m_text m @ post)" by simp
    with lm lt have "rmatch P (advance pre' None, c @ m_text m @ post, []) = []" by blast
    ultimately show False by simp
  qed
  from n1 n2 have len: "length pre' = length pre" by simp
  from ox out_def have "pre' @ (m_text m' @ post') = pre @ (R @ post)" by simp
  with len have pp: "pre' = pre" and rest: "m_text m' @ post' = R @ post" by simp_all
  from hd' pp rest hd1 have "post' = post" by simp
  with pp m' show ?thesis
    unfolding P_def pre_def post_def pre'_def post'_def out_def R_def search_def by simp
qed

text \<open>
  Claim C2, amended. When neither marker label contains a newline and the replacement does
  not contain the end line \<open>%% /END %%\<close>, splicing is idempotent: if \<open>replace_block\<close>
  succeeds on a text, then applying it again with the same labels and the same replacement
  to its output returns that output unchanged.
\<close>

theorem splice_is_fixed_point:
  assumes nls: "nl \<notin> set start_marker" and nle: "nl \<notin> set end_marker"
    and nc: "\<not> contains replacement (end_of end_marker)"
    and ok: "replace_block text start_marker end_marker replacement = Inr out"
  shows "replace_block out start_marker end_marker replacement = Inr out"
proof -
  define sl where "sl = start_of start_marker"
  define el where "el = end_of end_marker"
  from nls have nlsl: "nl \<notin> set sl" by (simp add: sl_def start_of_def)
  from nle have nlel: "nl \<notin> set el" by (simp add: el_def end_of_def)
  have el': "el = CHR ''%'' # (''% /'' @ end_marker @ '' %%'')" by (simp add: el_def end_of_def)
  from nc contains_rstrip have ncr: "\<not> contains (rstrip replacement) el"
    unfolding el_def by blast
  have R: "repl sl el replacement = sl @ ([nl, nl] @ rstrip replacement @ [nl, nl]) @ el"
    by (simp add: repl_def)
  from ok obtain m where m: "search (block_pattern sl el) text = Some m"
    and out: "out = m_before m @ repl sl el replacement @ m_after m"
    unfolding replace_block_search sl_def el_def by (auto split: option.splits)
  from splice_fixed_point_aux[OF nlsl el' nlel ncr m] obtain m'
    where m': "search (block_pattern sl el) out = Some m'"
      and b: "m_before m' = m_before m" and a: "m_after m' = m_after m"
    unfolding out R by blast
  from m' b a out show ?thesis
    unfolding replace_block_search sl_def el_def by simp
qed

definition plan_text :: string where
  "plan_text = ''# Plan'' @ [nl] @ ''%% A %%'' @ [nl] @ ''old'' @ [nl] @ ''%% /A %%'' @ [nl]
     @ ''tail''"

definition plan_spliced :: string where
  "plan_spliced = ''# Plan'' @ [nl] @ ''%% A %%'' @ [nl, nl] @ ''new'' @ [nl, nl] @ ''%% /A %%''
     @ [nl] @ ''tail''"

theorem splice_is_fixed_point_witness:
  "nl \<notin> set ''A'' \<and> \<not> contains (''new'' @ [nl]) (end_of ''A'') \<and>
   replace_block plan_text ''A'' ''A'' (''new'' @ [nl]) = Inr plan_spliced \<and>
   replace_block plan_spliced ''A'' ''A'' (''new'' @ [nl]) = Inr plan_spliced"
proof -
  have h1: "nl \<notin> set ''A''" by simp
  have h2: "\<not> contains (''new'' @ [nl]) (end_of ''A'')" by code_simp
  have h3: "replace_block plan_text ''A'' ''A'' (''new'' @ [nl]) = Inr plan_spliced"
    by code_simp
  from splice_is_fixed_point[OF h1 h1 h2 h3] h1 h2 h3 show ?thesis by (simp only: simp_thms)
qed

text \<open>
  The claim as stated, for every replacement, fails for a replacement that contains the
  end line: the second run stops at the end line inside the replacement and keeps what
  follows it, so the text grows.
\<close>

theorem end_marker_in_replacement_grows:
  "replace_block (''%% A %%'' @ [nl, nl] @ ''%% /A %%'') ''A'' ''A''
     (''x'' @ [nl] @ ''%% /A %%'' @ [nl] @ ''y'')
   = Inr (''%% A %%'' @ [nl, nl] @ ''x'' @ [nl] @ ''%% /A %%'' @ [nl] @ ''y'' @ [nl, nl]
          @ ''%% /A %%'') \<and>
   replace_block (''%% A %%'' @ [nl, nl] @ ''x'' @ [nl] @ ''%% /A %%'' @ [nl] @ ''y'' @ [nl, nl]
          @ ''%% /A %%'') ''A'' ''A''
     (''x'' @ [nl] @ ''%% /A %%'' @ [nl] @ ''y'')
   = Inr (''%% A %%'' @ [nl, nl] @ ''x'' @ [nl] @ ''%% /A %%'' @ [nl] @ ''y'' @ [nl, nl]
          @ ''%% /A %%'' @ [nl] @ ''y'' @ [nl, nl] @ ''%% /A %%'')"
  by code_simp

end
